theory Spec2Isabelle
  imports Main "HOL-Library.List_Lexorder"
begin

section \<open>Dense recursive polynomials (sympy/polys/densebasic.py)\<close>

text \<open>
  Ground coefficients are the integers (the domain \<open>ZZ\<close> of the docstrings): \<open>K.zero\<close>
  is \<open>0\<close> and the truth value of a coefficient is \<open>c \<noteq> 0\<close>. A univariate polynomial
  (\<open>dup_\<close> functions) is a list of coefficients, highest degree first. A nested value
  (\<open>dmp_\<close> functions) is a Python list of nested values or a bare coefficient; the
  level \<open>u\<close> is passed next to it, and a value whose shape does not fit the level makes
  Python raise a \<open>TypeError\<close>, which the model returns as a value.
\<close>

datatype error = IndexError | TypeError | ValueError

datatype dmp = Ground int | Dense "dmp list"

subsection \<open>Python helpers\<close>

text \<open>\<open>len(f)\<close> on a nested value: a bare coefficient has no length.\<close>

fun len :: "dmp \<Rightarrow> error + nat" where
  "len (Ground c) = Inl TypeError"
| "len (Dense cs) = Inr (length cs)"

text \<open>The truth value of a nested value: \<open>not f\<close> is \<open>\<not> truthy f\<close>.\<close>

fun truthy :: "dmp \<Rightarrow> bool" where
  "truthy (Ground c) = (c \<noteq> 0)"
| "truthy (Dense cs) = (cs \<noteq> [])"

text \<open>
  A level-0 value read as a list of ground coefficients, and back. An element that is
  not a bare coefficient is outside the type of the \<open>dup_\<close> functions.
\<close>

fun unground :: "dmp list \<Rightarrow> error + int list" where
  "unground [] = Inr []"
| "unground (Ground c # cs) =
     (case unground cs of Inl e \<Rightarrow> Inl e | Inr r \<Rightarrow> Inr (c # r))"
| "unground (Dense d # cs) = Inl TypeError"

fun as_dup :: "dmp \<Rightarrow> error + int list" where
  "as_dup (Ground c) = Inl TypeError"
| "as_dup (Dense cs) = unground cs"

definition of_dup :: "int list \<Rightarrow> dmp" where
  "of_dup cs = Dense (map Ground cs)"

text \<open>
  Python's slice \<open>f[a:b]\<close>: a negative index counts from the end, and every index is
  clipped to the list.
\<close>

definition py_index :: "nat \<Rightarrow> int \<Rightarrow> nat" where
  "py_index k i = (if i < 0 then nat (max 0 (i + int k)) else min (nat i) k)"

definition py_slice :: "'a list \<Rightarrow> int \<Rightarrow> int \<Rightarrow> 'a list" where
  "py_slice f a b = take (py_index (length f) b - py_index (length f) a)
                         (drop (py_index (length f) a) f)"

text \<open>Python's extended slice \<open>f[::g]\<close> for a positive step: every \<open>g\<close>-th element.\<close>

definition py_stride :: "'a list \<Rightarrow> nat \<Rightarrow> 'a list" where
  "py_stride f g = map (\<lambda>k. f ! (k * g)) [0..<(length f + g - 1) div g]"

text \<open>\<open>d[k] = v\<close> on a dictionary kept as an association list with distinct keys.\<close>

fun setitem :: "'k \<Rightarrow> 'v \<Rightarrow> ('k \<times> 'v) list \<Rightarrow> ('k \<times> 'v) list" where
  "setitem k v [] = [(k, v)]"
| "setitem k v ((k', v') # d) = (if k = k' then (k, v) # d else (k', v') # setitem k v d)"

subsection \<open>Degree and stripping\<close>

definition dup_degree :: "int list \<Rightarrow> int" where
  "dup_degree f = int (length f) - 1"

fun dmp_zero_p :: "dmp \<Rightarrow> nat \<Rightarrow> error + bool" where
  "dmp_zero_p f 0 = Inr (\<not> truthy f)"
| "dmp_zero_p f (Suc u) =
     (case f of
        Ground c \<Rightarrow> Inl TypeError
      | Dense cs \<Rightarrow> if length cs \<noteq> 1 then Inr False else dmp_zero_p (hd cs) u)"

definition wrap :: "dmp \<Rightarrow> dmp" where
  "wrap r = Dense [r]"

text \<open>\<open>xrange(u)\<close> is empty for \<open>u \<le> 0\<close>, so the loop runs \<open>nat u\<close> times.\<close>

definition dmp_zero :: "int \<Rightarrow> dmp" where
  "dmp_zero u = (wrap ^^ nat u) (Dense [])"

definition dmp_ground :: "int \<Rightarrow> int \<Rightarrow> dmp" where
  "dmp_ground c u = (if c = 0 then dmp_zero u else (wrap ^^ nat (u + 1)) (Ground c))"

definition dmp_degree :: "dmp \<Rightarrow> nat \<Rightarrow> error + int" where
  "dmp_degree f u =
     (case dmp_zero_p f u of
        Inl e \<Rightarrow> Inl e
      | Inr True \<Rightarrow> Inr (- 1)
      | Inr False \<Rightarrow> (case len f of Inl e \<Rightarrow> Inl e | Inr k \<Rightarrow> Inr (int k - 1)))"

text \<open>
  \<open>dup_strip\<close>: the loop counts the leading zero coefficients in \<open>i\<close>, and the
  result is \<open>f[i:]\<close>.
\<close>

definition dup_strip :: "int list \<Rightarrow> int list" where
  "dup_strip f =
     (if f = [] \<or> hd f \<noteq> 0 then f
      else drop (length (takeWhile (\<lambda>cf. cf = 0) f)) f)"

text \<open>
  The loop of \<open>dmp_strip\<close>: the number of leading elements that are zero at level \<open>v\<close>;
  it stops at the first that is not, and fails where \<open>dmp_zero_p\<close> does.
\<close>

fun count_zeros :: "dmp list \<Rightarrow> nat \<Rightarrow> error + nat" where
  "count_zeros [] v = Inr 0"
| "count_zeros (c # cs) v =
     (case dmp_zero_p c v of
        Inl e \<Rightarrow> Inl e
      | Inr False \<Rightarrow> Inr 0
      | Inr True \<Rightarrow> (case count_zeros cs v of Inl e \<Rightarrow> Inl e | Inr i \<Rightarrow> Inr (Suc i)))"

definition dmp_strip :: "dmp \<Rightarrow> nat \<Rightarrow> error + dmp" where
  "dmp_strip f u =
     (if u = 0 then
        (case as_dup f of Inl e \<Rightarrow> Inl e | Inr cs \<Rightarrow> Inr (of_dup (dup_strip cs)))
      else
        (case dmp_zero_p f u of
           Inl e \<Rightarrow> Inl e
         | Inr True \<Rightarrow> Inr f
         | Inr False \<Rightarrow>
             (case f of
                Ground c \<Rightarrow> Inl TypeError
              | Dense cs \<Rightarrow>
                  (case count_zeros cs (u - 1) of
                     Inl e \<Rightarrow> Inl e
                   | Inr i \<Rightarrow> if i = length cs then Inr (dmp_zero (int u))
                             else Inr (Dense (drop i cs))))))"

subsection \<open>Coefficient lookup\<close>

definition dup_nth :: "int list \<Rightarrow> int \<Rightarrow> error + int" where
  "dup_nth f n =
     (if n < 0 then Inl IndexError
      else if n \<ge> int (length f) then Inr 0
      else Inr (f ! nat (dup_degree f - n)))"

subsection \<open>Sparse maps\<close>

text \<open>
  A monomial is a tuple of exponents, a sparse polynomial a dictionary from monomials to
  coefficients, kept as an association list with distinct keys. Python leaves the order in
  which a dictionary is iterated open; the iterations below follow the list, and the result of
  \<open>dmp_from_dict\<close> is shown not to depend on that order (\<open>dmp_from_dict_perm\<close>). Python
  compares tuples lexicographically, as the order on lists does.
\<close>

type_synonym monom = "int list"
type_synonym sdict = "(monom \<times> int) list"

text \<open>\<open>max\<close> of a non-empty sequence.\<close>

definition py_max :: "'a::linorder list \<Rightarrow> 'a" where
  "py_max xs = fold max (tl xs) (hd xs)"

text \<open>\<open>xrange(n, -1, -1)\<close>: \<open>n, n - 1, \<dots>, 0\<close>, empty for negative \<open>n\<close>.\<close>

definition xrange_down :: "int \<Rightarrow> int list" where
  "xrange_down n = map int (rev [0..<nat (n + 1)])"

text \<open>The first error of a sequence of results, or all the values.\<close>

fun collect :: "(error + 'a) list \<Rightarrow> error + 'a list" where
  "collect [] = Inr []"
| "collect (Inl e # rs) = Inl e"
| "collect (Inr x # rs) = (case collect rs of Inl e \<Rightarrow> Inl e | Inr xs \<Rightarrow> Inr (x # xs))"

definition dup_from_dict :: "sdict \<Rightarrow> error + int list" where
  "dup_from_dict f =
     (if f = [] then Inr []
      else (case py_max (map fst f) of
              [n] \<Rightarrow> Inr (dup_strip (map (\<lambda>k. case map_of f [k] of None \<Rightarrow> 0 | Some c \<Rightarrow> c)
                                         (xrange_down n)))
            | _ \<Rightarrow> Inl ValueError))"

text \<open>
  One step of the grouping loop of \<open>dmp_from_dict\<close>: the term goes into the inner
  dictionary of its first exponent; \<open>monom[0]\<close> fails on the empty tuple.
\<close>

fun group_term :: "monom \<times> int \<Rightarrow> (int \<times> sdict) list \<Rightarrow> error + (int \<times> sdict) list" where
  "group_term ([], coeff) coeffs = Inl IndexError"
| "group_term (head # tail, coeff) coeffs =
     (case map_of coeffs head of
        Some d \<Rightarrow> Inr (setitem head (setitem tail coeff d) coeffs)
      | None \<Rightarrow> Inr (setitem head [(tail, coeff)] coeffs))"

fun group_terms :: "sdict \<Rightarrow> (int \<times> sdict) list \<Rightarrow> error + (int \<times> sdict) list" where
  "group_terms [] coeffs = Inr coeffs"
| "group_terms (t # ts) coeffs =
     (case group_term t coeffs of Inl e \<Rightarrow> Inl e | Inr coeffs' \<Rightarrow> group_terms ts coeffs')"

fun dmp_from_dict :: "sdict \<Rightarrow> nat \<Rightarrow> error + dmp" where
  "dmp_from_dict f 0 =
     (case dup_from_dict f of Inl e \<Rightarrow> Inl e | Inr cs \<Rightarrow> Inr (of_dup cs))"
| "dmp_from_dict f (Suc v) =
     (if f = [] then Inr (dmp_zero (int (Suc v)))
      else
        (case group_terms f [] of
           Inl e \<Rightarrow> Inl e
         | Inr coeffs \<Rightarrow>
             (case collect (map (\<lambda>k. case map_of coeffs k of
                                        Some coeff \<Rightarrow> dmp_from_dict coeff v
                                      | None \<Rightarrow> Inr (dmp_zero (int v)))
                                (xrange_down (py_max (map fst coeffs)))) of
                Inl e \<Rightarrow> Inl e
              | Inr h \<Rightarrow> dmp_strip (Dense h) (Suc v))))"

definition dup_to_dict :: "int list \<Rightarrow> bool \<Rightarrow> sdict" where
  "dup_to_dict f zero =
     (if f = [] \<and> zero then [([0], 0)]
      else fold (\<lambda>k result. if f ! (length f - 1 - k) \<noteq> 0
                             then setitem [int k] (f ! (length f - 1 - k)) result
                             else result)
                [0..<length f] [])"

text \<open>The inner loop of \<open>dmp_to_dict\<close>: \<open>result[(k,) + exp] = coeff\<close> for every term of \<open>h\<close>.\<close>

definition add_terms :: "int \<Rightarrow> sdict \<Rightarrow> sdict \<Rightarrow> sdict" where
  "add_terms k h result = fold (\<lambda>(exp, coeff) r. setitem (k # exp) coeff r) h result"

fun dmp_to_dict :: "dmp \<Rightarrow> nat \<Rightarrow> bool \<Rightarrow> error + sdict" where
  "dmp_to_dict f 0 zero =
     (case as_dup f of Inl e \<Rightarrow> Inl e | Inr cs \<Rightarrow> Inr (dup_to_dict cs zero))"
| "dmp_to_dict f (Suc v) zero =
     (case dmp_zero_p f (Suc v) of
        Inl e \<Rightarrow> Inl e
      | Inr z \<Rightarrow>
          if z \<and> zero then Inr [(replicate (Suc v + 1) 0, 0)]
          else
            (case dmp_degree f (Suc v) of
               Inl e \<Rightarrow> Inl e
             | Inr n \<Rightarrow>
                 (case f of
                    Ground c \<Rightarrow> Inl TypeError
                  | Dense cs \<Rightarrow>
                      fold (\<lambda>k acc. case acc of
                                Inl e \<Rightarrow> Inl e
                              | Inr result \<Rightarrow>
                                  (case dmp_to_dict (cs ! (length cs - 1 - k)) v False of
                                     Inl e \<Rightarrow> Inl e
                                   | Inr h \<Rightarrow> Inr (add_terms (int k) h result)))
                           [0..<nat (n + 1)] (Inr []))))"

text \<open>
  The outer loop of \<open>dmp_to_dict\<close> on the elements \<open>cs\<close> of \<open>f\<close>, run over the exponents
  below \<open>m\<close>.
\<close>

definition to_dict_loop :: "dmp list \<Rightarrow> nat \<Rightarrow> nat \<Rightarrow> error + sdict" where
  "to_dict_loop cs v m =
     fold (\<lambda>k acc. case acc of
               Inl e \<Rightarrow> Inl e
             | Inr result \<Rightarrow>
                 (case dmp_to_dict (cs ! (length cs - 1 - k)) v False of
                    Inl e \<Rightarrow> Inl e
                  | Inr h \<Rightarrow> Inr (add_terms (int k) h result)))
          [0..<m] (Inr [])"

subsection \<open>Recursive stripping\<close>

text \<open>
  \<open>_rec_strip\<close>, the helper of \<open>dmp_validate\<close>: it strips every level, the elements
  first. Iterating over a bare coefficient raises \<open>TypeError\<close>; at level 0 the value is
  read as a list of coefficients, as in \<open>dmp_strip\<close>.
\<close>

fun rec_strip :: "dmp \<Rightarrow> nat \<Rightarrow> error + dmp" where
  "rec_strip g 0 = (case as_dup g of Inl e \<Rightarrow> Inl e | Inr cs \<Rightarrow> Inr (of_dup (dup_strip cs)))"
| "rec_strip g (Suc w) =
     (case g of
        Ground c \<Rightarrow> Inl TypeError
      | Dense cs \<Rightarrow>
          (case collect (map (\<lambda>c. rec_strip c w) cs) of
             Inl e \<Rightarrow> Inl e
           | Inr h \<Rightarrow> dmp_strip (Dense h) (Suc w)))"

subsection \<open>Deflation and inflation\<close>

text \<open>
  The loop of \<open>dup_deflate\<close> over the exponents \<open>is\<close>: \<open>f[-i-1]\<close> is the coefficient of
  \<open>x^i\<close>. \<open>None\<close> is the early \<open>return 1, f\<close> taken as soon as the gcd is 1.
\<close>

fun exp_gcd :: "int list \<Rightarrow> nat list \<Rightarrow> int \<Rightarrow> int option" where
  "exp_gcd f [] g = Some g"
| "exp_gcd f (i # is) g =
     (if f ! (length f - 1 - i) = 0 then exp_gcd f is g
      else (let g' = gcd g (int i) in if g' = 1 then None else exp_gcd f is g'))"

text \<open>The slice \<open>f[::0]\<close> raises \<open>ValueError\<close>.\<close>

definition dup_deflate :: "int list \<Rightarrow> error + int \<times> int list" where
  "dup_deflate f =
     (if dup_degree f \<le> 0 then Inr (1, f)
      else (case exp_gcd f [0..<length f] 0 of
              None \<Rightarrow> Inr (1, f)
            | Some g \<Rightarrow> if g = 0 then Inl ValueError else Inr (g, py_stride f (nat g))))"

fun multi_loop :: "int list list \<Rightarrow> int \<Rightarrow> int option" where
  "multi_loop [] G = Some G"
| "multi_loop (p # ps) G =
     (if dup_degree p \<le> 0 then None
      else (case exp_gcd p [0..<length p] 0 of
              None \<Rightarrow> None
            | Some g \<Rightarrow> multi_loop ps (gcd G g)))"

definition dup_multi_deflate :: "int list list \<Rightarrow> error + int \<times> int list list" where
  "dup_multi_deflate polys =
     (case multi_loop polys 0 of
        None \<Rightarrow> Inr (1, polys)
      | Some G \<Rightarrow>
          if G = 0 \<and> polys \<noteq> [] then Inl ValueError
          else Inr (G, map (\<lambda>p. py_stride p (nat G)) polys))"

definition dup_inflate :: "int list \<Rightarrow> int \<Rightarrow> error + int list" where
  "dup_inflate f m =
     (if m \<le> 0 then Inl IndexError
      else if m = 1 \<or> f = [] then Inr f
      else Inr (hd f # concat (map (\<lambda>coeff. replicate (nat (m - 1)) 0 @ [coeff]) (tl f))))"

subsection \<open>Listing terms\<close>

fun rec_list_terms :: "dmp \<Rightarrow> nat \<Rightarrow> monom \<Rightarrow> error + (monom \<times> int) list" where
  "rec_list_terms g 0 monom =
     (case dmp_degree g 0 of
        Inl e \<Rightarrow> Inl e
      | Inr d \<Rightarrow>
          (case as_dup g of
             Inl e \<Rightarrow> Inl e
           | Inr cs \<Rightarrow> Inr (map (\<lambda>(i, c). (monom @ [d - int i], c))
                               (filter (\<lambda>(i, c). c \<noteq> 0) (enumerate 0 cs)))))"
| "rec_list_terms g (Suc w) monom =
     (case dmp_degree g (Suc w) of
        Inl e \<Rightarrow> Inl e
      | Inr d \<Rightarrow>
          (case g of
             Ground c \<Rightarrow> Inl TypeError
           | Dense cs \<Rightarrow>
               (case collect (map (\<lambda>(i, c). rec_list_terms c w (monom @ [d - int i]))
                                  (enumerate 0 cs)) of
                  Inl e \<Rightarrow> Inl e
                | Inr tss \<Rightarrow> Inr (concat tss))))"

text \<open>\<open>dmp_list_terms\<close> with the default \<open>order=None\<close>.\<close>

definition dmp_list_terms :: "dmp \<Rightarrow> nat \<Rightarrow> error + (monom \<times> int) list" where
  "dmp_list_terms f u =
     (case rec_list_terms f u [] of
        Inl e \<Rightarrow> Inl e
      | Inr terms \<Rightarrow> if terms = [] then Inr [(replicate (u + 1) 0, 0)] else Inr terms)"

subsection \<open>Slicing\<close>

definition dup_slice :: "int list \<Rightarrow> int \<Rightarrow> int \<Rightarrow> int list" where
  "dup_slice f m n =
     (let k = int (length f); M = k - m; N = k - n; f' = py_slice f N M
      in if f' = [] then [] else f' @ replicate (nat m) 0)"

text \<open>
  One step of the loop of \<open>dmp_slice_in\<close>: \<open>monom[j]\<close> fails beyond the tuple; a term
  with its exponent outside \<open>[m, n)\<close> gets that exponent replaced by 0; coefficients of
  equal monomials are added.
\<close>

definition slice_term :: "int \<Rightarrow> int \<Rightarrow> nat \<Rightarrow> monom \<times> int \<Rightarrow> sdict \<Rightarrow> error + sdict" where
  "slice_term m n j t g =
     (case t of (monom, coeff) \<Rightarrow>
        if j < length monom then
          (let k = monom ! j;
               monom' = (if k < m \<or> k \<ge> n then take j monom @ [0] @ drop (j + 1) monom
                         else monom)
           in case map_of g monom' of
                Some c \<Rightarrow> Inr (setitem monom' (c + coeff) g)
              | None \<Rightarrow> Inr (setitem monom' coeff g))
        else Inl IndexError)"

fun slice_terms :: "int \<Rightarrow> int \<Rightarrow> nat \<Rightarrow> sdict \<Rightarrow> sdict \<Rightarrow> error + sdict" where
  "slice_terms m n j [] g = Inr g"
| "slice_terms m n j (t # ts) g =
     (case slice_term m n j t g of Inl e \<Rightarrow> Inl e | Inr g' \<Rightarrow> slice_terms m n j ts g')"

definition dmp_slice_in :: "dmp \<Rightarrow> int \<Rightarrow> int \<Rightarrow> int \<Rightarrow> nat \<Rightarrow> error + dmp" where
  "dmp_slice_in f m n j u =
     (if j < 0 \<or> j > int u then Inl IndexError
      else if u = 0 then
        (case as_dup f of Inl e \<Rightarrow> Inl e | Inr cs \<Rightarrow> Inr (of_dup (dup_slice cs m n)))
      else
        (case dmp_to_dict f u False of
           Inl e \<Rightarrow> Inl e
         | Inr d \<Rightarrow>
             (case slice_terms m n (nat j) d [] of
                Inl e \<Rightarrow> Inl e
              | Inr g \<Rightarrow> dmp_from_dict g u)))"

subsection \<open>Random polynomials\<close>

text \<open>
  \<open>random.randint(a, b)\<close> returns an integer of \<open>[a, b]\<close> and raises \<open>ValueError\<close> for an
  empty range. The generator is a sequence \<open>rs\<close> of raw numbers: the \<open>i\<close>-th call returns
  \<open>a + rs i mod (b - a + 1)\<close>, which reaches every value of the range and no other.
  \<open>K.convert\<close> is the identity on the integers.
\<close>

definition randint :: "int \<Rightarrow> int \<Rightarrow> int \<Rightarrow> int" where
  "randint a b r = a + r mod (b - a + 1)"

text \<open>
  The loop \<open>while not f[0]\<close>, drawing from position \<open>i\<close> of the generator on: \<open>f[0]\<close>
  raises \<open>IndexError\<close> on the empty list, and the assignment replaces the first element.
  The loop need not end: no result is \<open>None\<close>.
\<close>

partial_function (option) resample :: "int \<Rightarrow> int \<Rightarrow> (nat \<Rightarrow> int) \<Rightarrow> nat \<Rightarrow> int list \<Rightarrow> (error + int list) option" where
  "resample a b rs i f =
     (case f of
        [] \<Rightarrow> Some (Inl IndexError)
      | c # cs \<Rightarrow> if c \<noteq> 0 then Some (Inr f)
                  else resample a b rs (Suc i) (randint a b (rs i) # cs))"

text \<open>
  The list takes the first \<open>n + 1\<close> numbers of the generator. With \<open>n < 0\<close> it is empty and
  no number is drawn; otherwise the first draw fails on an empty range.
\<close>

definition dup_random :: "int \<Rightarrow> int \<Rightarrow> int \<Rightarrow> (nat \<Rightarrow> int) \<Rightarrow> (error + int list) option" where
  "dup_random n a b rs =
     (if 0 \<le> n \<and> b < a then Some (Inl ValueError)
      else resample a b rs (nat (n + 1)) (map (\<lambda>i. randint a b (rs i)) [0..<nat (n + 1)]))"

section \<open>Properties of values\<close>

text \<open>
  The data model, written out. A value is shaped for level \<open>u\<close> when its nesting depth
  is \<open>u + 1\<close> everywhere, with ground coefficients at the bottom.
\<close>

fun ground_p :: "dmp \<Rightarrow> bool" where
  "ground_p (Ground c) = True"
| "ground_p (Dense cs) = False"

fun shaped :: "nat \<Rightarrow> dmp \<Rightarrow> bool" where
  "shaped u (Ground c) = False"
| "shaped 0 (Dense cs) = (\<forall>c\<in>set cs. ground_p c)"
| "shaped (Suc v) (Dense cs) = (\<forall>c\<in>set cs. shaped v c)"

text \<open>
  The normal form: at no nesting level does a sequence start with a zero, except the
  canonical zero, which is the only normal value with all coefficients zero.
\<close>

fun normal :: "nat \<Rightarrow> dmp \<Rightarrow> bool" where
  "normal u (Ground c) = False"
| "normal 0 (Dense cs) = ((\<forall>c\<in>set cs. ground_p c) \<and> (cs = [] \<or> hd cs \<noteq> Ground 0))"
| "normal (Suc v) (Dense cs) =
     ((\<forall>c\<in>set cs. normal v c) \<and> cs \<noteq> [] \<and> (hd cs = dmp_zero (int v) \<longrightarrow> length cs = 1))"

text \<open>
  An input of stripping: the elements are in normal form, the sequence itself may start
  with zeros.
\<close>

fun strippable :: "nat \<Rightarrow> dmp \<Rightarrow> bool" where
  "strippable u (Ground c) = False"
| "strippable 0 (Dense cs) = (\<forall>c\<in>set cs. ground_p c)"
| "strippable (Suc v) (Dense cs) = (\<forall>c\<in>set cs. normal v c)"

definition normal_dup :: "int list \<Rightarrow> bool" where
  "normal_dup f = (f = [] \<or> hd f \<noteq> 0)"

text \<open>
  The number of leading elements of a sequence at level \<open>u\<close> that are zero: zero
  coefficients at level 0, canonical zeros of level \<open>u - 1\<close> above.
\<close>

definition lead_zeros :: "nat \<Rightarrow> dmp list \<Rightarrow> nat" where
  "lead_zeros u cs =
     length (takeWhile (\<lambda>c. case u of 0 \<Rightarrow> c = Ground 0 | Suc v \<Rightarrow> dmp_zero_p c v = Inr True) cs)"

text \<open>All coefficients are zero, in whatever representation.\<close>

fun all_zero :: "dmp \<Rightarrow> bool" where
  "all_zero (Ground c) = (c = 0)"
| "all_zero (Dense cs) = (\<forall>c\<in>set cs. all_zero c)"

text \<open>
  The coefficient of the monomial with exponents \<open>e\<close>: the sequences are indexed from the
  highest degree down, so exponent \<open>k\<close> is at position \<open>length - 1 - k\<close>.
\<close>

fun poly_coeff :: "dmp \<Rightarrow> monom \<Rightarrow> int" where
  "poly_coeff (Ground c) [] = c"
| "poly_coeff (Ground c) (k # e) = 0"
| "poly_coeff (Dense cs) [] = 0"
| "poly_coeff (Dense cs) (k # e) =
     (if 0 \<le> k \<and> k < int (length cs) then poly_coeff (cs ! (length cs - 1 - nat k)) e else 0)"

text \<open>The exponents of a univariate polynomial that carry a nonzero coefficient, and their gcd.\<close>

definition exponents :: "int list \<Rightarrow> nat list" where
  "exponents f = filter (\<lambda>i. f ! (length f - 1 - i) \<noteq> 0) [0..<length f]"

definition exps_gcd :: "int list \<Rightarrow> int" where
  "exps_gcd f = fold gcd (map int (exponents f)) 0"

text \<open>
  The stride of a collection as the specification words it: the gcd of the exponents with
  a nonzero coefficient over all the polynomials, and 1 where that gcd is 0.
\<close>

definition joint_gcd :: "int list list \<Rightarrow> int" where
  "joint_gcd polys =
     (let g = fold gcd (map int (concat (map exponents polys))) 0 in if g = 0 then 1 else g)"

text \<open>
  What the grouped dictionaries built by \<open>dmp_from_dict\<close> hold for the monomial with first
  exponent \<open>k\<close> and remaining exponents \<open>e\<close>.
\<close>

definition group_lookup :: "(int \<times> sdict) list \<Rightarrow> int \<Rightarrow> monom \<Rightarrow> int option" where
  "group_lookup G k e = (case map_of G k of None \<Rightarrow> None | Some d \<Rightarrow> map_of d e)"

text \<open>Every group has distinct keys and is not empty, and so have the groups together.\<close>

definition grouped :: "(int \<times> sdict) list \<Rightarrow> bool" where
  "grouped G = (distinct (map fst G) \<and> (\<forall>(k, d)\<in>set G. distinct (map fst d) \<and> d \<noteq> []))"

text \<open>A generator whose every raw number is 0.\<close>

definition no_entropy :: "nat \<Rightarrow> int" where
  "no_entropy i = 0"

section \<open>Constants and coefficient lookup\<close>

lemma dmp_zero_0 [simp]: "dmp_zero 0 = Dense []"
  by (simp add: dmp_zero_def)

lemma dmp_zero_Suc [simp]: "dmp_zero (int (Suc v)) = Dense [dmp_zero (int v)]"
  by (simp add: dmp_zero_def wrap_def nat_add_distrib)

lemma dmp_zero_Suc_left [simp]: "dmp_zero (1 + int v) = Dense [dmp_zero (int v)]"
  using dmp_zero_Suc[of v] by (simp del: dmp_zero_Suc)

lemma dmp_zero_Suc_right [simp]: "dmp_zero (int v + 1) = Dense [dmp_zero (int v)]"
  using dmp_zero_Suc[of v] by (simp add: add.commute del: dmp_zero_Suc)

lemma dmp_zero_p_zero [simp]: "dmp_zero_p (dmp_zero (int u)) u = Inr True"
  by (induction u) simp_all

lemma dmp_zero_p_wrap_ground:
  "c \<noteq> 0 \<Longrightarrow> dmp_zero_p ((wrap ^^ Suc u) (Ground c)) u = Inr False"
  by (induction u) (simp_all add: wrap_def)

text \<open>
  C10. \<open>dmp_ground(c, u)\<close> is the canonical zero \<open>dmp_zero(u)\<close> when \<open>c\<close> is zero;
  otherwise, at a level \<open>u \<ge> -1\<close>, it is \<open>c\<close> wrapped in exactly \<open>u + 1\<close> singleton
  lists. At a level \<open>u \<ge> 0\<close> the result is zero exactly when \<open>c\<close> is, so the only zero
  it builds is the canonical one.
\<close>

theorem dmp_ground_canonical:
  "(c = 0 \<longrightarrow> dmp_ground c u = dmp_zero u) \<and>
   (c \<noteq> 0 \<longrightarrow> - 1 \<le> u \<longrightarrow> (\<exists>k. int k = u + 1 \<and> dmp_ground c u = (wrap ^^ k) (Ground c))) \<and>
   (0 \<le> u \<longrightarrow> dmp_zero_p (dmp_ground c u) (nat u) = Inr (c = 0))"
proof (intro conjI impI)
  assume "c = 0"
  then show "dmp_ground c u = dmp_zero u" by (simp add: dmp_ground_def)
next
  assume "c \<noteq> 0" "- 1 \<le> u"
  then have "int (nat (u + 1)) = u + 1 \<and> dmp_ground c u = (wrap ^^ nat (u + 1)) (Ground c)"
    by (simp add: dmp_ground_def)
  then show "\<exists>k. int k = u + 1 \<and> dmp_ground c u = (wrap ^^ k) (Ground c)" by blast
next
  assume u: "0 \<le> u"
  then obtain n where n: "u = int n" by (metis nat_0_le)
  show "dmp_zero_p (dmp_ground c u) (nat u) = Inr (c = 0)"
  proof (cases "c = 0")
    case True
    then show ?thesis by (simp add: dmp_ground_def n)
  next
    case False
    have "nat (int n + 1) = Suc n" by simp
    with False show ?thesis using dmp_zero_p_wrap_ground[of c n]
      by (simp add: dmp_ground_def n del: funpow.simps)
  qed
qed

theorem dmp_ground_canonical_witness:
  "dmp_ground 0 2 = Dense [Dense [Dense []]] \<and> dmp_ground 3 1 = Dense [Dense [Ground 3]]
   \<and> dmp_ground 1 (- 1) = Ground 1"
proof -
  have a: "dmp_ground 0 2 = dmp_zero 2" using dmp_ground_canonical[of 0 2] by simp
  obtain k where k: "int k = 1 + 1" "dmp_ground 3 1 = (wrap ^^ k) (Ground 3)"
    using dmp_ground_canonical[of 3 1] by auto
  then have k2: "k = 2" by simp
  obtain j where j: "int j = - 1 + 1" "dmp_ground 1 (- 1) = (wrap ^^ j) (Ground 1)"
    using dmp_ground_canonical[of 1 "- 1"] by auto
  then have j0: "j = 0" by simp
  have z: "dmp_zero 2 = Dense [Dense [Dense []]]"
    by (simp add: dmp_zero_def wrap_def numeral_2_eq_2)
  show ?thesis using a k(2) j(2) z by (simp add: k2 j0 wrap_def numeral_2_eq_2)
qed

lemma dup_nth_index:
  "0 \<le> n \<Longrightarrow> n < int (length f) \<Longrightarrow> f ! nat (dup_degree f - n) = rev f ! nat n"
  by (simp add: dup_degree_def rev_nth nat_diff_distrib)

text \<open>
  C7. \<open>dup_nth(f, n, K)\<close> raises an index error exactly when \<open>n < 0\<close>, and raises nothing
  else; it returns the zero of the domain when \<open>n\<close> exceeds the degree of \<open>f\<close>; otherwise
  it returns \<open>f[degree(f) - n]\<close>, which is the coefficient of \<open>x^n\<close>: the \<open>n\<close>-th element
  counted from the constant term.
\<close>

theorem dup_nth_spec:
  "(dup_nth f n = Inl IndexError \<longleftrightarrow> n < 0) \<and>
   (\<forall>e. dup_nth f n = Inl e \<longrightarrow> e = IndexError) \<and>
   (0 \<le> n \<longrightarrow> dup_degree f < n \<longrightarrow> dup_nth f n = Inr 0) \<and>
   (0 \<le> n \<longrightarrow> n \<le> dup_degree f \<longrightarrow>
      dup_nth f n = Inr (f ! nat (dup_degree f - n)) \<and> f ! nat (dup_degree f - n) = rev f ! nat n)"
  using dup_nth_index[of n f] by (auto simp: dup_nth_def dup_degree_def)

theorem dup_nth_spec_witness:
  "dup_nth [1, 2, 3] 0 = Inr 3 \<and> dup_nth [1, 2, 3] 4 = Inr 0
   \<and> dup_nth [1, 2, 3] (- 1) = Inl IndexError"
proof -
  have a: "dup_nth [1, 2, 3] 0 = Inr ([1, 2, 3] ! nat (dup_degree [1, 2, 3] - 0))"
    using dup_nth_spec[of "[1, 2, 3]" 0] by (simp add: dup_degree_def)
  have b: "dup_nth [1, 2, 3] 4 = Inr 0"
    using dup_nth_spec[of "[1, 2, 3]" 4] by (simp add: dup_degree_def)
  have c: "dup_nth [1, 2, 3] (- 1) = Inl IndexError"
    using dup_nth_spec[of "[1, 2, 3]" "- 1"] by simp
  show ?thesis using a b c by (simp add: dup_degree_def numeral_2_eq_2)
qed

section \<open>Slicing\<close>

lemma dmp_slice_in_index_error:
  "j < 0 \<or> int u < j \<Longrightarrow> dmp_slice_in f m n j u = Inl IndexError"
  by (auto simp: dmp_slice_in_def)

text \<open>
  C1. Above level 0, \<open>dmp_slice_in\<close> does not drop the terms whose exponent in \<open>x_j\<close> is
  outside \<open>[m, n)\<close>: it sets that exponent to 0 and adds the coefficients of the monomials
  that meet. For \<open>f = x^2 + x\<close> in \<open>K[x, y]\<close> the slice \<open>[0, 2)\<close> in \<open>x\<close> is \<open>x + 1\<close>, whose
  constant term is no term of \<open>f\<close>, where the same polynomial at level 0 gives \<open>x\<close>; and the
  slice \<open>[0, 0)\<close> in \<open>x\<close> is the constant 2, of degree 0 and not at most \<open>-1\<close>.
\<close>

theorem dmp_slice_in_moves_terms:
  "dmp_slice_in (Dense [Dense [Ground 1], Dense [Ground 1], Dense []]) 0 2 0 1
     = Inr (Dense [Dense [Ground 1], Dense [Ground 1]])
   \<and> poly_coeff (Dense [Dense [Ground 1], Dense [Ground 1], Dense []]) [0, 0] = 0
   \<and> poly_coeff (Dense [Dense [Ground 1], Dense [Ground 1]]) [0, 0] = 1
   \<and> dmp_slice_in (of_dup [1, 1, 0]) 0 2 0 0 = Inr (of_dup [1, 0])
   \<and> dmp_slice_in (Dense [Dense [Ground 1], Dense [Ground 1], Dense []]) 0 0 0 1
     = Inr (Dense [Dense [Ground 2]])"
  by code_simp

text \<open>
  C2. \<open>dup_slice\<close> returns the selected coefficients as they are, without stripping: the
  slice \<open>[0, 2)\<close> of \<open>x^2 + 2\<close> is \<open>[0, 2]\<close>, a sequence that starts with a zero.
\<close>

theorem dup_slice_leading_zero:
  "dup_slice [1, 0, 2] 0 2 = [0, 2] \<and> \<not> normal_dup (dup_slice [1, 0, 2] 0 2)"
  by (simp add: dup_slice_def py_slice_def py_index_def normal_dup_def)

section \<open>Stripping\<close>

lemma dup_strip_dropWhile: "dup_strip f = dropWhile (\<lambda>c. c = 0) f"
proof (cases "f = [] \<or> hd f \<noteq> 0")
  case True
  then show ?thesis by (cases f) (auto simp: dup_strip_def)
next
  case False
  then show ?thesis by (simp add: dup_strip_def dropWhile_eq_drop)
qed

lemma dup_strip_idem: "dup_strip (dup_strip f) = dup_strip f"
  by (simp add: dup_strip_dropWhile dropWhile_idem)

lemma dup_strip_normal: "normal_dup f \<Longrightarrow> dup_strip f = f"
  by (auto simp: dup_strip_def normal_dup_def)

lemma normal_dup_strip: "normal_dup (dup_strip f)"
  unfolding dup_strip_dropWhile normal_dup_def
  using hd_dropWhile[of "\<lambda>c. c = 0" f] by auto

lemma dup_degree_strip_le: "dup_degree (dup_strip f) \<le> dup_degree f"
  using length_dropWhile_le[of "\<lambda>c. c = 0" f] by (simp add: dup_strip_dropWhile dup_degree_def)

lemma dup_degree_strip:
  "dup_degree (dup_strip f) = dup_degree f - int (length (takeWhile (\<lambda>c. c = 0) f))"
proof -
  have "length (takeWhile (\<lambda>c. c = 0) f) + length (dropWhile (\<lambda>c. c = 0) f) = length f"
    by (metis length_append takeWhile_dropWhile_id)
  then show ?thesis by (simp add: dup_strip_dropWhile dup_degree_def)
qed

lemma unground_map_Ground [simp]: "unground (map Ground cs) = Inr cs"
  by (induction cs) simp_all

lemma as_dup_of_dup [simp]: "as_dup (of_dup cs) = Inr cs"
  by (simp add: of_dup_def)

lemma unground_Inr: "unground cs = Inr r \<Longrightarrow> cs = map Ground r"
proof (induction cs arbitrary: r)
  case Nil
  then show ?case by simp
next
  case (Cons c cs)
  then show ?case by (cases c) (auto split: sum.splits)
qed

lemma as_dup_Inr: "as_dup f = Inr r \<Longrightarrow> f = of_dup r"
  by (cases f) (auto simp: of_dup_def dest: unground_Inr)

lemma count_zeros_le: "count_zeros cs v = Inr i \<Longrightarrow> i \<le> length cs"
  by (induction cs arbitrary: i) (auto split: sum.splits bool.splits)

lemma count_zeros_stop:
  "count_zeros cs v = Inr i \<Longrightarrow> i < length cs \<Longrightarrow> dmp_zero_p (cs ! i) v = Inr False"
proof (induction cs arbitrary: i)
  case Nil
  then show ?case by simp
next
  case (Cons c cs)
  then show ?case by (auto split: sum.splits bool.splits)
qed

lemma dmp_strip_idem: "dmp_strip f u = Inr g \<Longrightarrow> dmp_strip g u = Inr g"
proof (cases u)
  case 0
  assume "dmp_strip f u = Inr g"
  with 0 show ?thesis
    by (auto simp: dmp_strip_def dup_strip_idem split: sum.splits)
next
  case (Suc v)
  assume a: "dmp_strip f u = Inr g"
  show ?thesis
  proof (cases "dmp_zero_p f u")
    case (Inl e)
    with a Suc show ?thesis by (simp add: dmp_strip_def)
  next
    case (Inr z)
    show ?thesis
    proof (cases z)
      case True
      with a Suc Inr show ?thesis by (simp add: dmp_strip_def)
    next
      case False
      with a Suc Inr obtain cs i where f: "f = Dense cs" and i: "count_zeros cs v = Inr i"
        and g: "g = (if i = length cs then dmp_zero (int u) else Dense (drop i cs))"
        by (auto simp: dmp_strip_def split: dmp.splits sum.splits if_splits)
      show ?thesis
      proof (cases "i = length cs")
        case True
        with g Suc show ?thesis by (simp add: dmp_strip_def)
      next
        case F: False
        with i have lt: "i < length cs" using count_zeros_le by fastforce
        then have nz: "dmp_zero_p (cs ! i) v = Inr False" using count_zeros_stop[OF i] by simp
        from lt obtain d ds where d: "drop i cs = d # ds" "d = cs ! i"
          by (metis Cons_nth_drop_Suc)
        have "dmp_zero_p (Dense (d # ds)) (Suc v) = Inr False" using nz d by simp
        moreover have "count_zeros (d # ds) v = Inr 0" using nz d by simp
        ultimately show ?thesis using g F d Suc by (simp add: dmp_strip_def)
      qed
    qed
  qed
qed

lemma shaped_zero_p: "shaped u f \<Longrightarrow> \<exists>b. dmp_zero_p f u = Inr b"
proof (induction u arbitrary: f)
  case 0
  then show ?case by simp
next
  case (Suc v)
  then obtain cs where f: "f = Dense cs" by (cases f) auto
  show ?case
  proof (cases "length cs = 1")
    case True
    then have "hd cs \<in> set cs" by (cases cs) auto
    with Suc f True show ?thesis by auto
  next
    case False
    with f show ?thesis by auto
  qed
qed

lemma shaped_count_zeros: "\<forall>c\<in>set cs. shaped v c \<Longrightarrow> \<exists>i. count_zeros cs v = Inr i"
proof (induction cs)
  case Nil
  then show ?case by simp
next
  case (Cons c cs)
  then obtain b i where "dmp_zero_p c v = Inr b" "count_zeros cs v = Inr i"
    using shaped_zero_p[of v c] by auto
  then show ?case by (cases b) auto
qed

lemma shaped_0_unground: "\<forall>c\<in>set cs. ground_p c \<Longrightarrow> \<exists>r. unground cs = Inr r"
proof (induction cs)
  case Nil
  then show ?case by simp
next
  case (Cons c cs)
  then show ?case by (cases c) auto
qed

lemma shaped_strip: "shaped u f \<Longrightarrow> \<exists>g. dmp_strip f u = Inr g"
proof (cases u)
  case 0
  assume "shaped u f"
  with 0 obtain cs where "f = Dense cs" "\<forall>c\<in>set cs. ground_p c" by (cases f) auto
  then show ?thesis using shaped_0_unground[of cs] 0 by (auto simp: dmp_strip_def)
next
  case (Suc v)
  assume s: "shaped u f"
  with Suc obtain cs where f: "f = Dense cs" "\<forall>c\<in>set cs. shaped v c" by (cases f) auto
  obtain b where b: "dmp_zero_p f u = Inr b" using shaped_zero_p[OF s] by blast
  obtain i where "count_zeros cs v = Inr i" using shaped_count_zeros[OF f(2)] by blast
  then show ?thesis using b f Suc by (cases b) (auto simp: dmp_strip_def)
qed

lemma dmp_strip_lead:
  "dmp_zero_p c v = Inr False \<Longrightarrow> dmp_strip (Dense (c # cs)) (Suc v) = Inr (Dense (c # cs))"
  by (cases "cs = []") (auto simp: dmp_strip_def)

lemma count_zeros_takeWhile:
  "count_zeros cs v = Inr i \<Longrightarrow> i = length (takeWhile (\<lambda>c. dmp_zero_p c v = Inr True) cs)"
proof (induction cs arbitrary: i)
  case Nil
  then show ?case by simp
next
  case (Cons c cs)
  then show ?case by (auto split: sum.splits bool.splits)
qed

lemma lead_zeros_Suc: "count_zeros cs v = Inr i \<Longrightarrow> lead_zeros (Suc v) cs = i"
  using count_zeros_takeWhile[of cs v i] by (simp add: lead_zeros_def)

lemma lead_zeros_0: "lead_zeros 0 (map Ground r) = length (takeWhile (\<lambda>c. c = 0) r)"
  by (simp add: lead_zeros_def takeWhile_map comp_def)

lemma dmp_degree_dup_degree: "dmp_degree (of_dup r) 0 = Inr (dup_degree r)"
  by (cases r) (simp_all add: dmp_degree_def of_dup_def dup_degree_def)

lemma dmp_degree_strip_0:
  assumes "dmp_strip g 0 = Inr h"
  shows "\<exists>cs d e. g = Dense cs \<and> dmp_degree g 0 = Inr d \<and> dmp_degree h 0 = Inr e
           \<and> e = d - int (lead_zeros 0 cs)"
proof -
  from assms obtain r where r: "as_dup g = Inr r" and h: "h = of_dup (dup_strip r)"
    by (auto simp: dmp_strip_def split: sum.splits)
  from r have g: "g = Dense (map Ground r)" using as_dup_Inr[OF r] by (simp add: of_dup_def)
  have "dmp_degree g 0 = Inr (dup_degree r)" using g dmp_degree_dup_degree[of r] by (simp add: of_dup_def)
  moreover have "dmp_degree h 0 = Inr (dup_degree (dup_strip r))" using h dmp_degree_dup_degree by simp
  moreover have "dup_degree (dup_strip r) = dup_degree r - int (lead_zeros 0 (map Ground r))"
    using dup_degree_strip[of r] by (simp add: lead_zeros_0)
  ultimately show ?thesis using g by blast
qed

lemma dmp_degree_strip_Suc:
  assumes a: "dmp_strip g (Suc v) = Inr h"
  shows "\<exists>cs d e. g = Dense cs \<and> dmp_degree g (Suc v) = Inr d \<and> dmp_degree h (Suc v) = Inr e
           \<and> e = (if dmp_zero_p g (Suc v) = Inr True then d else d - int (lead_zeros (Suc v) cs))"
proof (cases "dmp_zero_p g (Suc v)")
  case (Inl e)
  with a show ?thesis by (simp add: dmp_strip_def)
next
  case (Inr z)
  show ?thesis
  proof (cases z)
    case True
    with a Inr have h: "h = g" by (simp add: dmp_strip_def)
    from Inr True obtain cs where "g = Dense cs" by (cases g) auto
    moreover have "dmp_degree g (Suc v) = Inr (- 1)" using Inr True
      by (simp add: dmp_degree_def del: dmp_zero_p.simps)
    ultimately show ?thesis using h Inr True by simp
  next
    case False
    with a Inr obtain cs i where g: "g = Dense cs" and i: "count_zeros cs v = Inr i"
      and h: "h = (if i = length cs then dmp_zero (int (Suc v)) else Dense (drop i cs))"
      by (auto simp: dmp_strip_def split: dmp.splits sum.splits if_splits)
    have dg: "dmp_degree g (Suc v) = Inr (int (length cs) - 1)"
      using Inr False g by (simp add: dmp_degree_def del: dmp_zero_p.simps)
    have lz: "lead_zeros (Suc v) cs = i" using lead_zeros_Suc[OF i] .
    show ?thesis
    proof (cases "i = length cs")
      case True
      then have "h = dmp_zero (int (Suc v))" using h by simp
      then have "dmp_degree h (Suc v) = Inr (- 1)"
        using dmp_zero_p_zero[of "Suc v"] by (simp add: dmp_degree_def del: dmp_zero_p.simps dmp_zero_Suc)
      with dg g lz True Inr False show ?thesis by simp
    next
      case F: False
      with i have lt: "i < length cs" using count_zeros_le by fastforce
      then have nz: "dmp_zero_p (cs ! i) v = Inr False" using count_zeros_stop[OF i] by simp
      from lt obtain d ds where d: "drop i cs = d # ds" "d = cs ! i"
        by (metis Cons_nth_drop_Suc)
      have hz: "dmp_zero_p (Dense (d # ds)) (Suc v) = Inr False" using nz d by simp
      have "length (d # ds) = length cs - i" using d(1) by (metis length_drop)
      then have "dmp_degree (Dense (d # ds)) (Suc v) = Inr (int (length cs) - 1 - int i)"
        using hz lt by (simp add: dmp_degree_def del: dmp_zero_p.simps)
      with h F d dg g lz Inr False show ?thesis by simp
    qed
  qed
qed

lemma dmp_degree_strip:
  assumes a: "dmp_strip g u = Inr h"
  shows "\<exists>cs d e. g = Dense cs \<and> dmp_degree g u = Inr d \<and> dmp_degree h u = Inr e \<and> e \<le> d
           \<and> e = (if dmp_zero_p g u = Inr True then d else d - int (lead_zeros u cs))"
proof (cases u)
  case 0
  from dmp_degree_strip_0[OF a[unfolded 0]] obtain cs d e where
    "g = Dense cs" "dmp_degree g 0 = Inr d" "dmp_degree h 0 = Inr e" "e = d - int (lead_zeros 0 cs)"
    by blast
  moreover have "dmp_zero_p g 0 = Inr True \<Longrightarrow> lead_zeros 0 cs = 0"
    using \<open>g = Dense cs\<close> by (simp add: lead_zeros_def)
  ultimately show ?thesis using 0 by auto
next
  case (Suc v)
  from dmp_degree_strip_Suc[OF a[unfolded Suc]] obtain cs d e where
    "g = Dense cs" "dmp_degree g (Suc v) = Inr d" "dmp_degree h (Suc v) = Inr e"
    "e = (if dmp_zero_p g (Suc v) = Inr True then d else d - int (lead_zeros (Suc v) cs))"
    by blast
  then show ?thesis using Suc by auto
qed





section \<open>Deflation and inflation\<close>

lemma fold_gcd_int: "0 \<le> g \<Longrightarrow> fold gcd xs (g::int) = gcd g (Gcd (set xs))"
proof (induction xs arbitrary: g)
  case Nil
  then show ?case by simp
next
  case (Cons x xs)
  have "0 \<le> gcd x g" by simp
  from Cons.IH[OF this] show ?case by (simp add: ac_simps)
qed

lemma fold_gcd_1: "fold gcd xs (1::int) = 1"
  by (simp add: fold_gcd_int)

lemma exp_gcd_Some:
  "exp_gcd f is g = Some g' \<Longrightarrow>
     g' = fold gcd (map int (filter (\<lambda>i. f ! (length f - 1 - i) \<noteq> 0) is)) g"
proof (induction "is" arbitrary: g)
  case Nil
  then show ?case by simp
next
  case (Cons i "is")
  then show ?case by (auto simp: Let_def gcd.commute split: if_splits)
qed

lemma exp_gcd_None:
  "exp_gcd f is g = None \<Longrightarrow>
     fold gcd (map int (filter (\<lambda>i. f ! (length f - 1 - i) \<noteq> 0) is)) g = 1"
proof (induction "is" arbitrary: g)
  case Nil
  then show ?case by simp
next
  case (Cons i "is")
  then show ?case by (auto simp: Let_def gcd.commute fold_gcd_1 split: if_splits)
qed

lemma exps_gcd_dvd: "i \<in> set (exponents f) \<Longrightarrow> exps_gcd f dvd int i"
  by (simp add: exps_gcd_def fold_gcd_int)

lemma exps_gcd_nonneg: "0 \<le> exps_gcd f"
  by (simp add: exps_gcd_def fold_gcd_int)

lemma lead_exponent: "f \<noteq> [] \<Longrightarrow> hd f \<noteq> 0 \<Longrightarrow> length f - 1 \<in> set (exponents f)"
  by (cases f) (auto simp: exponents_def)

lemma exps_gcd_pos:
  assumes "f \<noteq> []" "hd f \<noteq> 0" "0 < dup_degree f"
  shows "0 < exps_gcd f" "exps_gcd f dvd int (length f - 1)"
proof -
  show d: "exps_gcd f dvd int (length f - 1)"
    using exps_gcd_dvd[OF lead_exponent[OF assms(1,2)]] .
  have "int (length f - 1) \<noteq> 0" using assms(3) by (simp add: dup_degree_def)
  with d have "exps_gcd f \<noteq> 0" by auto
  then show "0 < exps_gcd f" using exps_gcd_nonneg[of f] by simp
qed

lemma zero_off_stride:
  assumes "f \<noteq> []" "hd f \<noteq> 0" "0 < dup_degree f" "j < length f"
    and m: "int m dvd exps_gcd f" and nd: "\<not> m dvd j"
  shows "f ! j = 0"
proof (rule ccontr)
  assume nz: "f ! j \<noteq> 0"
  let ?i = "length f - 1 - j"
  have "length f - 1 - ?i = j" using assms(4) by simp
  with nz assms(4) have "?i \<in> set (exponents f)" by (auto simp: exponents_def)
  then have "exps_gcd f dvd int ?i" by (rule exps_gcd_dvd)
  with m have 1: "int m dvd int ?i" by (rule dvd_trans)
  have "exps_gcd f dvd int (length f - 1)" using exps_gcd_pos(2)[OF assms(1-3)] .
  with m have 2: "int m dvd int (length f - 1)" by (rule dvd_trans)
  have "int j = int (length f - 1) - int ?i" using assms(4) by simp
  with 1 2 have "int m dvd int j" by (metis dvd_diff)
  then have "m dvd j" by simp
  with nd show False by simp
qed

lemma py_stride_1: "py_stride f (Suc 0) = f"
  by (simp add: py_stride_def map_nth)

lemma take_block:
  assumes "0 < m" "a + m \<le> length f" "\<forall>j. a \<le> j \<and> j < a + m - 1 \<longrightarrow> f ! j = (0::int)"
  shows "take m (drop a f) = replicate (m - 1) 0 @ [f ! (a + m - 1)]"
proof (rule nth_equalityI)
  show "length (take m (drop a f)) = length (replicate (m - 1) 0 @ [f ! (a + m - 1)])"
    using assms by simp
next
  fix i assume "i < length (take m (drop a f))"
  then have i: "i < m" by simp
  show "take m (drop a f) ! i = (replicate (m - 1) 0 @ [f ! (a + m - 1)]) ! i"
  proof (cases "i < m - 1")
    case True
    then show ?thesis using assms i by (simp add: nth_append)
  next
    case False
    with i have "i = m - 1" by simp
    then show ?thesis using assms i by (simp add: nth_append)
  qed
qed

lemma inflate_prefix:
  assumes m: "0 < m" and z: "\<forall>j<length f. \<not> m dvd j \<longrightarrow> f ! j = (0::int)" and ne: "f \<noteq> []"
  shows "n * m < length f \<Longrightarrow>
     f ! 0 # concat (map (\<lambda>k. replicate (m - 1) 0 @ [f ! (k * m)]) [1..<Suc n]) = take (n * m + 1) f"
proof (induction n)
  case 0
  with ne show ?case by (cases f) simp_all
next
  case (Suc n)
  then have lt: "n * m < length f" by simp
  have blk: "take m (drop (n * m + 1) f) = replicate (m - 1) 0 @ [f ! (n * m + 1 + m - 1)]"
  proof (rule take_block[OF m])
    show "n * m + 1 + m \<le> length f" using Suc.prems by simp
    show "\<forall>j. n * m + 1 \<le> j \<and> j < n * m + 1 + m - 1 \<longrightarrow> f ! j = 0"
    proof (intro allI impI)
      fix j assume j: "n * m + 1 \<le> j \<and> j < n * m + 1 + m - 1"
      then have "j div m = n" by (simp add: div_nat_eqI mult.commute)
      moreover have "j \<noteq> n * m" using j by simp
      ultimately have "\<not> m dvd j" by (metis dvd_div_mult_self)
      moreover have "j < length f" using j Suc.prems by simp
      ultimately show "f ! j = 0" using z by simp
    qed
  qed
  have "take (Suc n * m + 1) f = take (n * m + 1 + m) f" by (simp add: add.commute add.left_commute)
  also have "\<dots> = take (n * m + 1) f @ take m (drop (n * m + 1) f)" by (rule take_add)
  finally have t: "take (Suc n * m + 1) f = take (n * m + 1) f @ replicate (m - 1) 0 @ [f ! (Suc n * m)]"
    using blk m by (simp add: add.commute)
  have "[1..<Suc (Suc n)] = [1..<Suc n] @ [Suc n]" by simp
  then show ?case using Suc.IH[OF lt] t by (simp del: upt_Suc mult_Suc)
qed

lemma inflate_stride:
  assumes m: "0 < m" and z: "\<forall>j<length f. \<not> m dvd j \<longrightarrow> f ! j = (0::int)" and ne: "f \<noteq> []"
    and d: "m dvd length f - 1"
  shows "hd (py_stride f m) # concat (map (\<lambda>c. replicate (m - 1) 0 @ [c]) (tl (py_stride f m))) = f"
proof -
  obtain q where q: "length f - 1 = q * m" using d by (metis dvd_div_mult_self)
  then have len: "length f = q * m + 1" using ne by (cases f) simp_all
  have "(length f + m - 1) div m = Suc q" using len m by simp
  then have s: "py_stride f m = map (\<lambda>k. f ! (k * m)) [0..<Suc q]" by (simp add: py_stride_def)
  have "[0..<Suc q] = 0 # [1..<Suc q]" by (simp add: upt_rec)
  then have s2: "py_stride f m = f ! 0 # map (\<lambda>k. f ! (k * m)) [1..<Suc q]" using s by simp
  have "hd (py_stride f m) # concat (map (\<lambda>c. replicate (m - 1) 0 @ [c]) (tl (py_stride f m)))
        = f ! 0 # concat (map (\<lambda>k. replicate (m - 1) 0 @ [f ! (k * m)]) [1..<Suc q])"
    unfolding s2 by (simp add: comp_def del: upt_Suc)
  also have "\<dots> = take (q * m + 1) f"
    by (rule inflate_prefix[OF m z ne]) (simp add: len)
  finally show ?thesis using len by simp
qed

lemma py_stride_nonempty: "f \<noteq> [] \<Longrightarrow> 0 < m \<Longrightarrow> py_stride f m \<noteq> []"
  by (cases f) (auto simp: py_stride_def div_greater_zero_iff)

lemma inflate_stride_dvd:
  assumes "f \<noteq> []" "hd f \<noteq> 0" "0 < dup_degree f" and pos: "0 < m" and m: "m dvd exps_gcd f"
  shows "dup_inflate (py_stride f (nat m)) m = Inr f"
proof -
  have im: "int (nat m) = m" using pos by simp
  have "exps_gcd f dvd int (length f - 1)" using exps_gcd_pos(2)[OF assms(1-3)] .
  with m have "m dvd int (length f - 1)" by (rule dvd_trans)
  then have dv': "nat m dvd length f - 1" using pos by (metis nat_dvd_iff less_imp_le)
  show ?thesis
  proof (cases "m = 1")
    case True
    then show ?thesis by (simp add: dup_inflate_def py_stride_1)
  next
    case False
    have z: "\<forall>j<length f. \<not> nat m dvd j \<longrightarrow> f ! j = 0"
      using zero_off_stride[OF assms(1-3), of _ "nat m"] m im by simp
    have "nat (m - 1) = nat m - 1" using pos by simp
    then show ?thesis
      using inflate_stride[of "nat m" f, OF _ z assms(1) dv'] pos False
        py_stride_nonempty[OF assms(1), of "nat m"]
      by (simp add: dup_inflate_def)
  qed
qed

lemma inflate_stride_gcd:
  assumes "f \<noteq> []" "hd f \<noteq> 0" "0 < dup_degree f"
  shows "dup_inflate (py_stride f (nat (exps_gcd f))) (exps_gcd f) = Inr f"
  using inflate_stride_dvd[OF assms exps_gcd_pos(1)[OF assms]] by simp

lemma dup_deflate_normal:
  assumes "f \<noteq> []" "hd f \<noteq> 0" "0 < dup_degree f"
  shows "dup_deflate f = Inr (exps_gcd f, py_stride f (nat (exps_gcd f)))"
proof (cases "exp_gcd f [0..<length f] 0")
  case None
  then have "exps_gcd f = 1" using exp_gcd_None[OF None] by (simp add: exps_gcd_def exponents_def)
  with None assms show ?thesis by (simp add: dup_deflate_def py_stride_1)
next
  case (Some g)
  then have "g = exps_gcd f" using exp_gcd_Some[OF Some] by (simp add: exps_gcd_def exponents_def)
  with Some assms exps_gcd_pos(1)[OF assms] show ?thesis by (simp add: dup_deflate_def)
qed

lemma dup_deflate_trivial:
  assumes "dup_degree f \<le> 0 \<or> exps_gcd f = 1"
  shows "dup_deflate f = Inr (1, f)"
proof (cases "dup_degree f \<le> 0")
  case True
  then show ?thesis by (simp add: dup_deflate_def)
next
  case False
  with assms have g1: "exps_gcd f = 1" by simp
  show ?thesis
  proof (cases "exp_gcd f [0..<length f] 0")
    case None
    with False show ?thesis by (simp add: dup_deflate_def)
  next
    case (Some g)
    then have "g = 1" using exp_gcd_Some[OF Some] g1 by (simp add: exps_gcd_def exponents_def)
    with Some False show ?thesis by (simp add: dup_deflate_def py_stride_1)
  qed
qed

text \<open>
  C4. For a univariate polynomial \<open>f\<close> of degree above 0 (its leading coefficient is not
  zero), \<open>dup_deflate\<close> returns the gcd \<open>g\<close> of the exponents with a nonzero coefficient
  and every \<open>g\<close>-th coefficient of \<open>f\<close>, and \<open>dup_inflate\<close> of that result by \<open>g\<close> is \<open>f\<close>
  again. \<open>dup_deflate\<close> returns \<open>(1, f)\<close> whenever the degree is at most 0 or that gcd
  is 1.
\<close>

theorem dup_deflate_inflate:
  "(f \<noteq> [] \<and> hd f \<noteq> 0 \<and> 0 < dup_degree f \<longrightarrow>
      (\<exists>g h. dup_deflate f = Inr (g, h) \<and> g = exps_gcd f \<and> 0 < g
             \<and> h = py_stride f (nat g) \<and> dup_inflate h g = Inr f)) \<and>
   (dup_degree f \<le> 0 \<or> exps_gcd f = 1 \<longrightarrow> dup_deflate f = Inr (1, f))"
  using dup_deflate_normal[of f] inflate_stride_gcd[of f] exps_gcd_pos(1)[of f]
    dup_deflate_trivial[of f] by blast

theorem dup_deflate_inflate_witness:
  "dup_deflate [1, 0, 0, 1, 0, 0, 1] = Inr (3, [1, 1, 1])
   \<and> dup_inflate [1, 1, 1] 3 = Inr [1, 0, 0, 1, 0, 0, 1]
   \<and> dup_deflate [5] = Inr (1, [5])"
proof -
  have e: "dup_deflate [1, 0, 0, 1, 0, 0, 1] = Inr (3, [1, 1, 1])" by code_simp
  have d: "0 < dup_degree [1, 0, 0, 1, 0, 0, 1]" "dup_degree [5] \<le> 0" by (simp_all add: dup_degree_def)
  from dup_deflate_inflate[of "[1, 0, 0, 1, 0, 0, 1]"] d(1)
  obtain g h where "dup_deflate [1, 0, 0, 1, 0, 0, 1] = Inr (g, h)"
    "dup_inflate h g = Inr [1, 0, 0, 1, 0, 0, 1]" by auto
  with e have i: "dup_inflate [1, 1, 1] 3 = Inr [1, 0, 0, 1, 0, 0, 1]" by simp
  from dup_deflate_inflate[of "[5]"] d(2) have "dup_deflate [5] = Inr (1, [5])" by blast
  with e i show ?thesis by simp
qed

lemma exps_gcd_Gcd: "exps_gcd p = Gcd (set (map int (exponents p)))"
  by (simp add: exps_gcd_def fold_gcd_int)

lemma Gcd_set_append:
  "Gcd (set (xs @ ys)) = gcd (Gcd (set xs)) (Gcd (set (ys::int list)))"
  by (induction xs) (simp_all add: ac_simps)

lemma joint_Gcd:
  "fold gcd (map int (concat (map exponents ps))) 0 = Gcd (exps_gcd ` set ps)"
proof -
  have "Gcd (set (map int (concat (map exponents ps)))) = Gcd (exps_gcd ` set ps)"
  proof (induction ps)
    case Nil
  then show ?case by simp
  next
    case (Cons p ps)
    have "map int (concat (map exponents (p # ps)))
            = map int (exponents p) @ map int (concat (map exponents ps))"
      by simp
    then show ?case using Cons by (simp only: Gcd_set_append exps_gcd_Gcd list.set image_insert Gcd_insert)
  qed
  then show ?thesis by (simp add: fold_gcd_int)
qed

lemma multi_loop_Some:
  "multi_loop ps G = Some G' \<Longrightarrow> 0 \<le> G \<Longrightarrow>
     G' = gcd G (Gcd (exps_gcd ` set ps)) \<and> (\<forall>p\<in>set ps. 0 < dup_degree p)"
proof (induction ps arbitrary: G)
  case Nil
  then show ?case by simp
next
  case (Cons p ps)
  from Cons.prems(1) obtain g where g: "exp_gcd p [0..<length p] 0 = Some g"
    and d: "0 < dup_degree p" and r: "multi_loop ps (gcd G g) = Some G'"
    by (auto split: if_splits option.splits)
  have ge: "g = exps_gcd p" using exp_gcd_Some[OF g] by (simp add: exps_gcd_def exponents_def)
  have "0 \<le> gcd G g" by simp
  from Cons.IH[OF r this] d ge show ?case by (simp add: ac_simps)
qed

lemma multi_loop_None:
  "multi_loop ps G = None \<Longrightarrow> \<exists>p\<in>set ps. dup_degree p \<le> 0 \<or> exps_gcd p = 1"
proof (induction ps arbitrary: G)
  case Nil
  then show ?case by simp
next
  case (Cons p ps)
  show ?case
  proof (cases "dup_degree p \<le> 0")
    case True
  then show ?thesis by simp
  next
    case False
    show ?thesis
    proof (cases "exp_gcd p [0..<length p] 0")
      case None
      then have "exps_gcd p = 1" using exp_gcd_None[OF None] by (simp add: exps_gcd_def exponents_def)
      then show ?thesis by simp
    next
      case (Some g)
      with Cons.prems False have "multi_loop ps (gcd G g) = None" by simp
      from Cons.IH[OF this] show ?thesis by auto
    qed
  qed
qed

lemma multi_loop_constant:
  "\<exists>p\<in>set ps. dup_degree p \<le> 0 \<Longrightarrow> multi_loop ps G = None"
proof (induction ps arbitrary: G)
  case Nil
  then show ?case by simp
next
  case (Cons p ps)
  then show ?case by (auto split: option.splits)
qed

lemma map_py_stride_1: "map (\<lambda>p. py_stride p (Suc 0)) polys = polys"
  by (simp add: py_stride_1)

lemma joint_gcd_normal:
  assumes ne: "polys \<noteq> []" and n: "\<forall>p\<in>set polys. p \<noteq> [] \<and> hd p \<noteq> 0 \<and> 0 < dup_degree p"
  shows "joint_gcd polys = Gcd (exps_gcd ` set polys)" "0 < joint_gcd polys"
    "\<forall>p\<in>set polys. joint_gcd polys dvd exps_gcd p"
proof -
  let ?J = "Gcd (exps_gcd ` set polys)"
  obtain p where p: "p \<in> set polys" using ne by (cases polys) auto
  then have "0 < exps_gcd p" using exps_gcd_pos(1) n by blast
  moreover have "?J dvd exps_gcd p" using p by (simp add: Gcd_dvd)
  ultimately have "?J \<noteq> 0" by (metis dvd_0_left less_irrefl)
  moreover have "0 \<le> ?J" by simp
  ultimately have pos: "0 < ?J" by (simp only: less_le) simp
  then show j: "joint_gcd polys = ?J" by (simp add: joint_gcd_def joint_Gcd Let_def del: Gcd_0_iff)
  show "0 < joint_gcd polys" using pos j by simp
  show "\<forall>p\<in>set polys. joint_gcd polys dvd exps_gcd p" using j by (simp add: Gcd_dvd)
qed

lemma dup_multi_deflate_normal:
  assumes ne: "polys \<noteq> []" and n: "\<forall>p\<in>set polys. p \<noteq> [] \<and> hd p \<noteq> 0 \<and> 0 < dup_degree p"
  shows "dup_multi_deflate polys
           = Inr (joint_gcd polys, map (\<lambda>p. py_stride p (nat (joint_gcd polys))) polys)"
proof (cases "multi_loop polys 0")
  case None
  then obtain p where p: "p \<in> set polys" "exps_gcd p = 1"
    using multi_loop_None[OF None] n by force
  then have "joint_gcd polys dvd 1" using joint_gcd_normal(3)[OF ne n] by force
  then have "joint_gcd polys = 1" using joint_gcd_normal(2)[OF ne n] by simp
  with None show ?thesis by (simp add: dup_multi_deflate_def map_py_stride_1)
next
  case (Some G)
  then have "G = joint_gcd polys"
    using multi_loop_Some[OF Some] joint_gcd_normal(1)[OF ne n] by simp
  with Some joint_gcd_normal(2)[OF ne n] show ?thesis by (simp add: dup_multi_deflate_def)
qed

text \<open>
  C5, as the code has it. For a collection of univariate polynomials that all have a
  degree above 0 (leading coefficients not zero), \<open>dup_multi_deflate\<close> returns the gcd of
  the exponents with a nonzero coefficient over the whole collection, and every polynomial
  reduced to each \<open>G\<close>-th coefficient, which \<open>dup_inflate\<close> by \<open>G\<close> turns back. As soon as
  one polynomial of the collection has a degree of at most 0, the result is \<open>(1, polys)\<close>.
\<close>

theorem dup_multi_deflate_spec:
  "(polys \<noteq> [] \<and> (\<forall>p\<in>set polys. p \<noteq> [] \<and> hd p \<noteq> 0 \<and> 0 < dup_degree p) \<longrightarrow>
      dup_multi_deflate polys
        = Inr (joint_gcd polys, map (\<lambda>p. py_stride p (nat (joint_gcd polys))) polys)
      \<and> (\<forall>p\<in>set polys. dup_inflate (py_stride p (nat (joint_gcd polys))) (joint_gcd polys) = Inr p))
   \<and> ((\<exists>p\<in>set polys. dup_degree p \<le> 0) \<longrightarrow> dup_multi_deflate polys = Inr (1, polys))"
proof (intro conjI impI)
  assume a: "polys \<noteq> [] \<and> (\<forall>p\<in>set polys. p \<noteq> [] \<and> hd p \<noteq> 0 \<and> 0 < dup_degree p)"
  then show "dup_multi_deflate polys
        = Inr (joint_gcd polys, map (\<lambda>p. py_stride p (nat (joint_gcd polys))) polys)"
    using dup_multi_deflate_normal by blast
  show "\<forall>p\<in>set polys. dup_inflate (py_stride p (nat (joint_gcd polys))) (joint_gcd polys) = Inr p"
    using a joint_gcd_normal(2,3)[of polys] inflate_stride_dvd by blast
next
  assume "\<exists>p\<in>set polys. dup_degree p \<le> 0"
  then show "dup_multi_deflate polys = Inr (1, polys)"
    using multi_loop_constant[of polys 0] by (simp add: dup_multi_deflate_def)
qed

theorem dup_multi_deflate_spec_witness:
  "dup_multi_deflate [[1, 0, 2, 0, 3], [4, 0, 0]] = Inr (2, [[1, 2, 3], [4, 0]])
   \<and> dup_inflate [4, 0] 2 = Inr [4, 0, 0]
   \<and> dup_multi_deflate [[1, 0, 2], [7]] = Inr (1, [[1, 0, 2], [7]])"
proof -
  let ?ps = "[[1, 0, 2, 0, 3], [4, 0, 0]] :: int list list"
  have h: "?ps \<noteq> [] \<and> (\<forall>p\<in>set ?ps. p \<noteq> [] \<and> hd p \<noteq> 0 \<and> 0 < dup_degree p)"
    by (simp add: dup_degree_def)
  have j: "joint_gcd ?ps = 2" by code_simp
  have s: "map (\<lambda>p. py_stride p (nat 2)) ?ps = [[1, 2, 3], [4, 0]]" by code_simp
  have k: "\<exists>p\<in>set [[1, 0, 2], [7::int]]. dup_degree p \<le> 0" by (simp add: dup_degree_def)
  from dup_multi_deflate_spec[of ?ps] h
  have a: "dup_multi_deflate ?ps = Inr (joint_gcd ?ps, map (\<lambda>p. py_stride p (nat (joint_gcd ?ps))) ?ps)"
    and b: "\<forall>p\<in>set ?ps. dup_inflate (py_stride p (nat (joint_gcd ?ps))) (joint_gcd ?ps) = Inr p"
    by blast+
  from b have "dup_inflate (py_stride [4, 0, 0] (nat (joint_gcd ?ps))) (joint_gcd ?ps) = Inr [4, 0, 0]"
    by simp
  moreover have "py_stride [4, 0, 0::int] (nat 2) = [4, 0]" by code_simp
  ultimately have c: "dup_inflate [4, 0] 2 = Inr [4, 0, 0]" by (simp add: j)
  from dup_multi_deflate_spec[of "[[1, 0, 2], [7]]"] k
  have "dup_multi_deflate [[1, 0, 2], [7]] = Inr (1, [[1, 0, 2], [7]])" by blast
  with a c show ?thesis by (simp only: j s)
qed

text \<open>
  The stride is not the joint gcd when a constant is in the collection: for \<open>x^2 + 1\<close> and
  the constant 5 the exponents with a nonzero coefficient are 2, 0 and 0, of gcd 2, and the
  result is 1 with the polynomials unchanged.
\<close>

theorem dup_multi_deflate_counterexample:
  "dup_multi_deflate [[1, 0, 1], [5]] = Inr (1, [[1, 0, 1], [5]])
   \<and> joint_gcd [[1, 0, 1], [5]] = 2"
  by code_simp

section \<open>Random polynomials\<close>

lemma randint_range: "a \<le> b \<Longrightarrow> a \<le> randint a b r \<and> randint a b r \<le> b"
proof -
  assume "a \<le> b"
  then have p: "0 < b - a + 1" by simp
  have "0 \<le> r mod (b - a + 1)" using p by (rule pos_mod_sign)
  moreover have "r mod (b - a + 1) < b - a + 1" using p by (rule pos_mod_bound)
  ultimately show ?thesis by (simp add: randint_def)
qed

text \<open>
  Every value of the range is the draw of exactly one raw number of a period, so that raw
  numbers spread evenly over a period give draws spread evenly over \<open>[a, b]\<close>.
\<close>

lemma randint_onto:
  assumes "a \<le> c" "c \<le> b"
  shows "\<exists>!r. 0 \<le> r \<and> r \<le> b - a \<and> randint a b r = c"
proof
  show "0 \<le> c - a \<and> c - a \<le> b - a \<and> randint a b (c - a) = c"
    using assms by (simp add: randint_def)
next
  fix r assume r: "0 \<le> r \<and> r \<le> b - a \<and> randint a b r = c"
  then have "r mod (b - a + 1) = r" by simp
  with r show "r = c - a" by (simp add: randint_def)
qed

lemma resample_returns:
  "randint a b (rs (i + k)) \<noteq> 0 \<Longrightarrow>
     \<exists>c j. resample a b rs i (c0 # cs) = Some (Inr (c # cs)) \<and> c \<noteq> 0
            \<and> (c = c0 \<or> c = randint a b (rs j))"
proof (induction k arbitrary: i c0)
  case 0
  show ?case
  proof (cases "c0 = 0")
    case False
    then show ?thesis by (subst resample.simps) auto
  next
    case True
    have "resample a b rs (Suc i) (randint a b (rs i) # cs) = Some (Inr (randint a b (rs i) # cs))"
      using 0 by (subst resample.simps) simp
    with True 0 show ?thesis by (subst resample.simps) auto
  qed
next
  case (Suc k)
  show ?case
  proof (cases "c0 = 0")
    case False
    then show ?thesis by (subst resample.simps) auto
  next
    case True
    have "randint a b (rs (Suc i + k)) \<noteq> 0" using Suc.prems by simp
    from Suc.IH[OF this, of "randint a b (rs i)"]
    obtain c j where "resample a b rs (Suc i) (randint a b (rs i) # cs) = Some (Inr (c # cs))"
      "c \<noteq> 0" "c = randint a b (rs i) \<or> c = randint a b (rs j)" by blast
    with True show ?thesis by (subst resample.simps) auto
  qed
qed

lemma resample_needs:
  assumes "resample a b rs i f = Some r"
  shows "f = [] \<or> hd f \<noteq> 0 \<or> (\<exists>k. randint a b (rs (i + k)) \<noteq> 0)"
proof (rule resample.raw_induct[where P = "\<lambda>a b rs i f r.
         f = [] \<or> hd f \<noteq> 0 \<or> (\<exists>k. randint a b (rs (i + k)) \<noteq> 0)", OF _ assms])
  fix resample' :: "int \<Rightarrow> int \<Rightarrow> (nat \<Rightarrow> int) \<Rightarrow> nat \<Rightarrow> int list \<Rightarrow> (error + int list) option"
  fix a b rs i f r
  assume IH: "\<And>a b rs i f r. resample' a b rs i f = Some r \<Longrightarrow>
                f = [] \<or> hd f \<noteq> 0 \<or> (\<exists>k. randint a b (rs (i + k)) \<noteq> 0)"
    and body: "(case f of [] \<Rightarrow> Some (Inl IndexError)
               | c # cs \<Rightarrow> if c \<noteq> 0 then Some (Inr f)
                           else resample' a b rs (Suc i) (randint a b (rs i) # cs)) = Some r"
  show "f = [] \<or> hd f \<noteq> 0 \<or> (\<exists>k. randint a b (rs (i + k)) \<noteq> 0)"
  proof (cases f)
    case Nil
    then show ?thesis by simp
  next
    case (Cons c cs)
    show ?thesis
    proof (cases "c = 0")
      case False
      with Cons show ?thesis by simp
    next
      case True
      with body Cons have "resample' a b rs (Suc i) (randint a b (rs i) # cs) = Some r" by simp
      from IH[OF this] have "randint a b (rs i) \<noteq> 0 \<or> (\<exists>k. randint a b (rs (Suc i + k)) \<noteq> 0)"
        by simp
      then show ?thesis
      proof
        assume "randint a b (rs i) \<noteq> 0"
        then have "randint a b (rs (i + 0)) \<noteq> 0" by simp
        then show ?thesis by blast
      next
        assume "\<exists>k. randint a b (rs (Suc i + k)) \<noteq> 0"
        then obtain k where "randint a b (rs (i + Suc k)) \<noteq> 0" by auto
        then show ?thesis by blast
      qed
    qed
  qed
qed

lemma dup_random_returns:
  assumes n: "0 \<le> n" and ab: "a \<le> b"
    and h: "randint a b (rs 0) \<noteq> 0 \<or> (\<exists>k. randint a b (rs (nat (n + 1) + k)) \<noteq> 0)"
  shows "\<exists>f. dup_random n a b rs = Some (Inr f) \<and> length f = nat (n + 1)
           \<and> (\<forall>c\<in>set f. a \<le> c \<and> c \<le> b) \<and> hd f \<noteq> 0 \<and> dup_degree f = n
           \<and> tl f = map (\<lambda>i. randint a b (rs i)) [1..<nat (n + 1)]"
proof -
  let ?m = "nat (n + 1)"
  let ?f0 = "map (\<lambda>i. randint a b (rs i)) [0..<?m]"
  obtain m' where m': "?m = Suc m'" using n by (cases ?m) auto
  have f0: "?f0 = randint a b (rs 0) # map (\<lambda>i. randint a b (rs i)) [1..<?m]"
    by (simp add: m' upt_conv_Cons del: upt_Suc)
  let ?cs = "map (\<lambda>i. randint a b (rs i)) [1..<?m]"
  have "\<exists>c. resample a b rs ?m (randint a b (rs 0) # ?cs) = Some (Inr (c # ?cs)) \<and> c \<noteq> 0
          \<and> a \<le> c \<and> c \<le> b"
  proof (cases "randint a b (rs 0) = 0")
    case False
    then show ?thesis using randint_range[OF ab] by (subst resample.simps) auto
  next
    case True
    with h obtain k where "randint a b (rs (?m + k)) \<noteq> 0" by blast
    from resample_returns[of a b rs ?m k "randint a b (rs 0)" ?cs, OF this]
    obtain c j where c: "resample a b rs ?m (randint a b (rs 0) # ?cs) = Some (Inr (c # ?cs))"
      "c \<noteq> 0" "c = randint a b (rs 0) \<or> c = randint a b (rs j)" by blast
    from c(3) have "a \<le> c \<and> c \<le> b" using randint_range[OF ab] by auto
    with c(1,2) show ?thesis by blast
  qed
  then obtain c where c: "resample a b rs ?m (randint a b (rs 0) # ?cs) = Some (Inr (c # ?cs))"
    "c \<noteq> 0" "a \<le> c" "c \<le> b" by blast
  have "dup_random n a b rs = Some (Inr (c # ?cs))"
    using c(1) n ab f0 by (simp add: dup_random_def)
  moreover have "length (c # ?cs) = ?m" by (simp add: m')
  moreover have "\<forall>x\<in>set (c # ?cs). a \<le> x \<and> x \<le> b" using c randint_range[OF ab] by auto
  moreover have "dup_degree (c # ?cs) = n"
  proof -
    have "int ?m = n + 1" using n by simp
    moreover have "length (c # ?cs) = ?m" by (simp add: m')
    ultimately show ?thesis unfolding dup_degree_def by linarith
  qed
  ultimately show ?thesis using c(2) by (intro exI[of _ "c # ?cs"]) simp
qed

lemma dup_random_diverges:
  assumes n: "0 \<le> n" and ab: "a \<le> b"
    and h: "randint a b (rs 0) = 0" "\<forall>k. randint a b (rs (nat (n + 1) + k)) = 0"
  shows "dup_random n a b rs = None"
proof (rule ccontr)
  assume "dup_random n a b rs \<noteq> None"
  then obtain r where r: "dup_random n a b rs = Some r" by auto
  let ?m = "nat (n + 1)"
  obtain m' where m': "?m = Suc m'" using n by (cases ?m) auto
  have f0: "map (\<lambda>i. randint a b (rs i)) [0..<?m]
              = randint a b (rs 0) # map (\<lambda>i. randint a b (rs i)) [1..<?m]"
    by (simp add: m' upt_conv_Cons del: upt_Suc)
  from r n ab have "resample a b rs ?m (map (\<lambda>i. randint a b (rs i)) [0..<?m]) = Some r"
    by (simp add: dup_random_def)
  from resample_needs[OF this] show False using h f0 by simp
qed

lemma randint_0_0: "randint 0 0 r = 0"
  by (simp add: randint_def)

lemma resample_first:
  "randint a b (rs (i + k)) \<noteq> 0 \<Longrightarrow> \<forall>j<k. randint a b (rs (i + j)) = 0 \<Longrightarrow>
     resample a b rs i (0 # cs) = Some (Inr (randint a b (rs (i + k)) # cs))"
proof (induction k arbitrary: i)
  case 0
  have "resample a b rs (Suc i) (randint a b (rs i) # cs) = Some (Inr (randint a b (rs i) # cs))"
    using 0 by (subst resample.simps) simp
  then show ?case by (subst resample.simps) simp
next
  case (Suc k)
  have z: "randint a b (rs i) = 0" using Suc.prems(2)[rule_format, of 0] by simp
  have 1: "randint a b (rs (Suc i + k)) \<noteq> 0" using Suc.prems(1) by simp
  have 2: "\<forall>j<k. randint a b (rs (Suc i + j)) = 0"
  proof (intro allI impI)
    fix j assume "j < k"
    then have "Suc j < Suc k" by simp
    from Suc.prems(2)[rule_format, OF this] show "randint a b (rs (Suc i + j)) = 0" by simp
  qed
  have "resample a b rs i (0 # cs) = resample a b rs (Suc i) (0 # cs)"
    using z by (subst resample.simps) simp
  also have "\<dots> = Some (Inr (randint a b (rs (Suc i + k)) # cs))" using Suc.IH[OF 1 2] .
  finally show ?case by simp
qed

lemma first_nonzero:
  assumes "\<exists>k. randint a b (rs (m + k :: nat)) \<noteq> 0"
  shows "\<exists>k. randint a b (rs (m + k)) \<noteq> 0 \<and> (\<forall>j<k. randint a b (rs (m + j)) = 0)"
proof -
  let ?P = "\<lambda>k::nat. randint a b (rs (m + k)) \<noteq> 0"
  from assms have "\<exists>k. ?P k \<and> (\<forall>j<k. \<not> ?P j)" using exists_least_iff[of ?P] by blast
  then show ?thesis by simp
qed

lemma dup_random_leading:
  assumes n: "0 \<le> n" and ab: "a \<le> b"
    and h: "randint a b (rs 0) \<noteq> 0 \<or> (\<exists>k. randint a b (rs (nat (n + 1) + k)) \<noteq> 0)"
  shows "\<exists>f. dup_random n a b rs = Some (Inr f)
           \<and> tl f = map (\<lambda>i. randint a b (rs i)) [1..<nat (n + 1)]
           \<and> (randint a b (rs 0) \<noteq> 0 \<longrightarrow> hd f = randint a b (rs 0))
           \<and> (randint a b (rs 0) = 0 \<longrightarrow>
                (\<exists>k. hd f = randint a b (rs (nat (n + 1) + k))
                    \<and> (\<forall>j<k. randint a b (rs (nat (n + 1) + j)) = 0)))"
proof -
  let ?m = "nat (n + 1)"
  let ?cs = "map (\<lambda>i. randint a b (rs i)) [1..<?m]"
  obtain m' where m': "?m = Suc m'" using n by (cases ?m) auto
  have f0: "map (\<lambda>i. randint a b (rs i)) [0..<?m] = randint a b (rs 0) # ?cs"
    by (simp add: m' upt_conv_Cons del: upt_Suc)
  have dr: "dup_random n a b rs = resample a b rs ?m (randint a b (rs 0) # ?cs)"
    using n ab f0 by (simp add: dup_random_def)
  show ?thesis
  proof (cases "randint a b (rs 0) = 0")
    case False
    then have "resample a b rs ?m (randint a b (rs 0) # ?cs) = Some (Inr (randint a b (rs 0) # ?cs))"
      by (subst resample.simps) simp
    with dr have "dup_random n a b rs = Some (Inr (randint a b (rs 0) # ?cs))" by simp
    with False show ?thesis by (intro exI[of _ "randint a b (rs 0) # ?cs"]) simp
  next
    case True
    with h have "\<exists>k. randint a b (rs (?m + k)) \<noteq> 0" by blast
    from first_nonzero[OF this] obtain k where k: "randint a b (rs (?m + k)) \<noteq> 0"
      "\<forall>j<k. randint a b (rs (?m + j)) = 0" by blast
    from resample_first[OF k, of ?cs] dr True
    have "dup_random n a b rs = Some (Inr (randint a b (rs (?m + k)) # ?cs))" by simp
    moreover have "\<exists>k'. randint a b (rs (?m + k)) = randint a b (rs (?m + k'))
                    \<and> (\<forall>j<k'. randint a b (rs (?m + j)) = 0)" using k(2) by blast
    ultimately show ?thesis using True by (intro exI[of _ "randint a b (rs (?m + k)) # ?cs"]) simp
  qed
qed

text \<open>
  C8, as the code has it. For \<open>n \<ge> 0\<close> and \<open>a \<le> b\<close>, \<open>dup_random\<close> returns exactly when the
  first draw is not zero or some later draw for the leading slot is not zero. It then
  returns \<open>n + 1\<close> coefficients, each of them a draw of \<open>randint\<close> and so of \<open>[a, b]\<close>: the
  leading coefficient is the first draw if that is not zero, and else the first nonzero
  draw made after the first \<open>n + 1\<close>; the other coefficients are the draws
  \<open>2, \<dots>, n + 1\<close> in their order. The leading coefficient is not zero, so the degree is
  exactly \<open>n\<close>. When every draw for the leading slot is zero, the loop does not end.
\<close>

theorem dup_random_spec:
  "0 \<le> n \<and> a \<le> b \<longrightarrow>
     ((randint a b (rs 0) \<noteq> 0 \<or> (\<exists>k. randint a b (rs (nat (n + 1) + k)) \<noteq> 0) \<longrightarrow>
        (\<exists>f. dup_random n a b rs = Some (Inr f) \<and> length f = nat (n + 1)
           \<and> (\<forall>c\<in>set f. a \<le> c \<and> c \<le> b) \<and> hd f \<noteq> 0 \<and> dup_degree f = n
           \<and> tl f = map (\<lambda>i. randint a b (rs i)) [1..<nat (n + 1)]
           \<and> (randint a b (rs 0) \<noteq> 0 \<longrightarrow> hd f = randint a b (rs 0))
           \<and> (randint a b (rs 0) = 0 \<longrightarrow>
                (\<exists>k. hd f = randint a b (rs (nat (n + 1) + k))
                    \<and> (\<forall>j<k. randint a b (rs (nat (n + 1) + j)) = 0)))))
      \<and> (randint a b (rs 0) = 0 \<and> (\<forall>k. randint a b (rs (nat (n + 1) + k)) = 0) \<longrightarrow>
           dup_random n a b rs = None))"
proof (intro impI conjI)
  assume a: "0 \<le> n \<and> a \<le> b"
    and h: "randint a b (rs 0) \<noteq> 0 \<or> (\<exists>k. randint a b (rs (nat (n + 1) + k)) \<noteq> 0)"
  from a have n: "0 \<le> n" and ab: "a \<le> b" by simp_all
  from dup_random_returns[OF n ab h] obtain f where
    f: "dup_random n a b rs = Some (Inr f)" "length f = nat (n + 1)"
      "\<forall>c\<in>set f. a \<le> c \<and> c \<le> b" "hd f \<noteq> 0" "dup_degree f = n"
      "tl f = map (\<lambda>i. randint a b (rs i)) [1..<nat (n + 1)]"
    by (elim exE conjE) (rule that, assumption+)
  from dup_random_leading[OF n ab h] obtain f' where
    f': "dup_random n a b rs = Some (Inr f')"
      "randint a b (rs 0) \<noteq> 0 \<longrightarrow> hd f' = randint a b (rs 0)"
      "randint a b (rs 0) = 0 \<longrightarrow>
         (\<exists>k. hd f' = randint a b (rs (nat (n + 1) + k))
             \<and> (\<forall>j<k. randint a b (rs (nat (n + 1) + j)) = 0))"
    by (elim exE conjE) (rule that, assumption+)
  from f(1) f'(1) have e: "f' = f" by simp
  show "\<exists>f. dup_random n a b rs = Some (Inr f) \<and> length f = nat (n + 1)
           \<and> (\<forall>c\<in>set f. a \<le> c \<and> c \<le> b) \<and> hd f \<noteq> 0 \<and> dup_degree f = n
           \<and> tl f = map (\<lambda>i. randint a b (rs i)) [1..<nat (n + 1)]
           \<and> (randint a b (rs 0) \<noteq> 0 \<longrightarrow> hd f = randint a b (rs 0))
           \<and> (randint a b (rs 0) = 0 \<longrightarrow>
                (\<exists>k. hd f = randint a b (rs (nat (n + 1) + k))
                    \<and> (\<forall>j<k. randint a b (rs (nat (n + 1) + j)) = 0)))"
  proof (intro exI[of _ f] conjI)
    show "dup_random n a b rs = Some (Inr f)" by (rule f(1))
    show "length f = nat (n + 1)" by (rule f(2))
    show "\<forall>c\<in>set f. a \<le> c \<and> c \<le> b" by (rule f(3))
    show "hd f \<noteq> 0" by (rule f(4))
    show "dup_degree f = n" by (rule f(5))
    show "tl f = map (\<lambda>i. randint a b (rs i)) [1..<nat (n + 1)]" by (rule f(6))
    show "randint a b (rs 0) \<noteq> 0 \<longrightarrow> hd f = randint a b (rs 0)" using f'(2) e by simp
    show "randint a b (rs 0) = 0 \<longrightarrow>
                (\<exists>k. hd f = randint a b (rs (nat (n + 1) + k))
                    \<and> (\<forall>j<k. randint a b (rs (nat (n + 1) + j)) = 0))" using f'(3) e by simp
  qed
next
  assume a: "0 \<le> n \<and> a \<le> b"
    and h: "randint a b (rs 0) = 0 \<and> (\<forall>k. randint a b (rs (nat (n + 1) + k)) = 0)"
  from a have "0 \<le> n" "a \<le> b" by simp_all
  moreover from h have "randint a b (rs 0) = 0" "\<forall>k. randint a b (rs (nat (n + 1) + k)) = 0"
    by simp_all
  ultimately show "dup_random n a b rs = None" by (rule dup_random_diverges)
qed

theorem dup_random_spec_witness:
  "dup_random 2 (- 1) 1 (\<lambda>i. if i = 4 then 2 else 1) = Some (Inr [1, 0, 0])
   \<and> dup_degree [1, 0, 0] = 2
   \<and> dup_random 1 0 5 (\<lambda>i. 7 + int i) = Some (Inr [1, 2])"
proof -
  let ?rs = "\<lambda>i::nat. if i = 4 then 2 else (1::int)"
  have r: "\<And>i. randint (- 1) 1 (?rs i) = (if i = 4 then 1 else 0)" by (simp add: randint_def)
  have z: "randint (- 1) 1 (?rs 0) = 0" by (simp add: randint_def)
  have "randint (- 1) 1 (?rs (nat (2 + 1) + 1)) \<noteq> 0" by (simp add: randint_def)
  then have h: "\<exists>k. randint (- 1) 1 (?rs (nat (2 + 1) + k)) \<noteq> 0" by blast
  have g: "(0::int) \<le> 2 \<and> (- 1::int) \<le> 1" by simp
  from dup_random_spec[of 2 "- 1" 1 ?rs] g h z
  obtain f k where f: "dup_random 2 (- 1) 1 ?rs = Some (Inr f)" "length f = nat (2 + 1)"
    "hd f \<noteq> 0" "tl f = map (\<lambda>i. randint (- 1) 1 (?rs i)) [1..<nat (2 + 1)]"
    "hd f = randint (- 1) 1 (?rs (nat (2 + 1) + k))"
    by blast
  from f(3,5) have "hd f = 1" by (simp add: randint_def split: if_splits)
  moreover have "tl f = [0, 0]" using f(4) by (simp add: randint_def upt_conv_Cons)
  moreover have "f \<noteq> []" using f(2) by auto
  ultimately have "f = [1, 0, 0]" by (cases f) simp_all
  with f(1) have a: "dup_random 2 (- 1) 1 ?rs = Some (Inr [1, 0, 0])" by simp
  let ?qs = "\<lambda>i::nat. 7 + int i"
  have q0: "randint 0 5 (?qs 0) = 1" by (simp add: randint_def)
  have g2: "(0::int) \<le> 1 \<and> (0::int) \<le> 5" by simp
  from dup_random_spec[of 1 0 5 ?qs] g2 q0
  obtain f2 where f2: "dup_random 1 0 5 ?qs = Some (Inr f2)" "length f2 = nat (1 + 1)"
    "tl f2 = map (\<lambda>i. randint 0 5 (?qs i)) [1..<nat (1 + 1)]" "hd f2 = randint 0 5 (?qs 0)"
    by auto
  have "tl f2 = [2]" using f2(3) by (simp add: randint_def upt_conv_Cons)
  moreover have "f2 \<noteq> []" using f2(2) by auto
  ultimately have "f2 = [1, 2]" using f2(4) q0 by (cases f2) simp_all
  with f2(1) have b: "dup_random 1 0 5 ?qs = Some (Inr [1, 2])" by simp
  show ?thesis using a b by (simp add: dup_degree_def)
qed

text \<open>
  With \<open>a = b = 0\<close> every draw is 0: the call does not return, although \<open>n \<ge> 0\<close> and
  \<open>a \<le> b\<close>.
\<close>

theorem dup_random_counterexample: "dup_random 0 0 0 no_entropy = None"
  using dup_random_diverges[of 0 0 0 no_entropy] by (simp add: randint_0_0)

section \<open>Listing terms\<close>

lemma shaped_Dense: "shaped u f \<Longrightarrow> \<exists>cs. f = Dense cs"
  by (cases f) auto

lemma shaped_0_of_dup: "shaped 0 f \<Longrightarrow> \<exists>cs. f = of_dup cs"
proof -
  assume s: "shaped 0 f"
  then obtain gs where f: "f = Dense gs" "\<forall>c\<in>set gs. ground_p c" by (cases f) auto
  then obtain r where "unground gs = Inr r" using shaped_0_unground by blast
  then show ?thesis using f unground_Inr by (auto simp: of_dup_def)
qed

lemma dmp_degree_of_dup: "dmp_degree (of_dup cs) 0 = Inr (int (length cs) - 1)"
  by (cases cs) (simp_all add: dmp_degree_def of_dup_def)

lemma poly_coeff_of_dup:
  "poly_coeff (of_dup cs) [k] = (if 0 \<le> k \<and> k < int (length cs) then cs ! (length cs - 1 - nat k) else 0)"
proof (cases "0 \<le> k \<and> k < int (length cs)")
  case True
  then have "length cs - 1 - nat k < length cs" by linarith
  then have "map Ground cs ! (length cs - 1 - nat k) = Ground (cs ! (length cs - 1 - nat k))"
    by (rule nth_map)
  with True show ?thesis by (simp add: of_dup_def)
next
  case False
  then show ?thesis by (auto simp: of_dup_def)
qed

lemma poly_coeff_of_dup_length: "poly_coeff (of_dup cs) e \<noteq> 0 \<Longrightarrow> length e = 1"
proof (cases e)
  case Nil
  assume "poly_coeff (of_dup cs) e \<noteq> 0"
  with Nil show ?thesis by (simp add: of_dup_def)
next
  case (Cons k e')
  assume a: "poly_coeff (of_dup cs) e \<noteq> 0"
  show ?thesis
  proof (cases e')
    case Nil
    with Cons show ?thesis by simp
  next
    case (Cons k' e'')
    with a \<open>e = k # e'\<close> show ?thesis by (auto simp: of_dup_def split: if_splits)
  qed
qed

lemma rec_list_terms_0:
  "rec_list_terms (of_dup cs) 0 monom =
     Inr (map (\<lambda>(i, c). (monom @ [int (length cs) - 1 - int i], c))
              (filter (\<lambda>(i, c). c \<noteq> 0) (enumerate 0 cs)))"
  by (simp add: dmp_degree_of_dup)

lemma terms_0_set:
  "set (map (\<lambda>(i, c). (monom @ [int (length cs) - 1 - int i], c))
            (filter (\<lambda>(i, c). c \<noteq> 0) (enumerate 0 cs)))
   = {(monom @ e, c) | e c. length e = Suc 0 \<and> c \<noteq> 0 \<and> poly_coeff (of_dup cs) e = c}"
  (is "?L = ?R")
proof (intro set_eqI iffI)
  fix x assume "x \<in> ?L"
  then obtain i where i: "i < length cs" "cs ! i \<noteq> 0" "x = (monom @ [int (length cs) - 1 - int i], cs ! i)"
    by (auto simp: in_set_enumerate_eq)
  let ?k = "int (length cs) - 1 - int i"
  have "0 \<le> ?k \<and> ?k < int (length cs)" using i(1) by simp
  moreover have "length cs - 1 - nat ?k = i" using i(1) by simp
  ultimately have "poly_coeff (of_dup cs) [?k] = cs ! i" by (simp add: poly_coeff_of_dup)
  with i show "x \<in> ?R" by auto
next
  fix x assume "x \<in> ?R"
  then obtain e c where x: "x = (monom @ e, c)" "length e = Suc 0" "c \<noteq> 0" "poly_coeff (of_dup cs) e = c"
    by blast
  then obtain k where e: "e = [k]" by (cases e) auto
  with x have k: "0 \<le> k" "k < int (length cs)" "c = cs ! (length cs - 1 - nat k)"
    by (auto simp: poly_coeff_of_dup split: if_splits)
  let ?i = "length cs - 1 - nat k"
  have "?i < length cs" using k by simp
  moreover have "int (length cs) - 1 - int ?i = k" using k by simp
  ultimately have "(?i, cs ! ?i) \<in> set (enumerate 0 cs) \<and> int (length cs) - 1 - int ?i = k"
    by (simp add: in_set_enumerate_eq)
  with x e k show "x \<in> ?L" by (force simp: image_iff)
qed

lemma terms_0_distinct:
  "distinct (map fst (map (\<lambda>(i, c). (monom @ [int (length cs) - 1 - int i], c))
            (filter (\<lambda>(i, c). (c::int) \<noteq> 0) (enumerate 0 cs))))"
proof -
  let ?F = "filter (\<lambda>(i, c). c \<noteq> 0) (enumerate 0 cs)"
  let ?g = "\<lambda>i::nat. monom @ [int (length cs) - 1 - int i]"
  have e: "map fst (map (\<lambda>(i, c). (?g i, c)) ?F) = map ?g (map fst ?F)"
    by (simp add: comp_def case_prod_beta)
  have d: "distinct (map fst ?F)" by (rule distinct_map_filter) simp
  have "inj ?g" by (rule injI) simp
  then have "inj_on ?g (set (map fst ?F))" by (rule inj_on_subset) simp
  with d have "distinct (map ?g (map fst ?F))" by (simp only: distinct_map)
  then show ?thesis by (simp only: e)
qed


lemma zero_p_all_zero: "shaped u f \<Longrightarrow> dmp_zero_p f u = Inr True \<Longrightarrow> all_zero f"
proof (induction u arbitrary: f)
  case 0
  then show ?case by (cases f) auto
next
  case (Suc v)
  then obtain cs where f: "f = Dense cs" by (cases f) auto
  with Suc.prems obtain c where c: "cs = [c]" "dmp_zero_p c v = Inr True" "shaped v c"
    by (cases cs) (auto split: if_splits)
  with Suc.IH[of c] f show ?case by simp
qed

lemma all_zero_coeff: "all_zero f \<Longrightarrow> poly_coeff f e = 0"
proof (induction e arbitrary: f)
  case Nil
  then show ?case by (cases f) auto
next
  case (Cons k e)
  show ?case
  proof (cases f)
    case (Ground c)
    then show ?thesis by simp
  next
    case (Dense cs)
    show ?thesis
    proof (cases "0 \<le> k \<and> k < int (length cs)")
      case True
      then have "length cs - 1 - nat k < length cs" by linarith
      then have "cs ! (length cs - 1 - nat k) \<in> set cs" by (rule nth_mem)
      with Cons.prems Dense have "all_zero (cs ! (length cs - 1 - nat k))" by simp
      with Cons.IH Dense True show ?thesis by simp
    next
      case False
      with Dense show ?thesis by auto
    qed
  qed
qed

lemma poly_coeff_child:
  "i < length gs \<Longrightarrow> poly_coeff (Dense gs) ((int (length gs) - 1 - int i) # e) = poly_coeff (gs ! i) e"
proof -
  assume i: "i < length gs"
  let ?k = "int (length gs) - 1 - int i"
  have "0 \<le> ?k \<and> ?k < int (length gs)" using i by simp
  moreover have "length gs - 1 - nat ?k = i" using i by simp
  ultimately show ?thesis by simp
qed

lemma coeff_all_zero:
  "shaped u f \<Longrightarrow> \<forall>e. length e = Suc u \<longrightarrow> poly_coeff f e = 0 \<Longrightarrow> all_zero f"
proof (induction u arbitrary: f)
  case 0
  then obtain cs where f: "f = of_dup cs" using shaped_0_of_dup by blast
  have "\<forall>i<length cs. cs ! i = 0"
  proof (intro allI impI)
    fix i assume i: "i < length cs"
    have "poly_coeff (of_dup cs) [int (length cs) - 1 - int i] = 0" using 0(2) f by simp
    moreover have "poly_coeff (of_dup cs) [int (length cs) - 1 - int i] = cs ! i"
      unfolding of_dup_def using poly_coeff_child[of i "map Ground cs" "[]"] i by simp
    ultimately show "cs ! i = 0" by simp
  qed
  then have "\<forall>c\<in>set cs. c = 0" by (metis in_set_conv_nth)
  then show ?case using f by (simp add: of_dup_def)
next
  case (Suc v)
  then obtain gs where f: "f = Dense gs" "\<forall>c\<in>set gs. shaped v c" by (cases f) auto
  have "\<forall>c\<in>set gs. all_zero c"
  proof
    fix c assume "c \<in> set gs"
    then obtain i where i: "i < length gs" "c = gs ! i" by (metis in_set_conv_nth)
    have "\<forall>e. length e = Suc v \<longrightarrow> poly_coeff c e = 0"
    proof (intro allI impI)
      fix e :: monom assume "length e = Suc v"
      then have "poly_coeff f ((int (length gs) - 1 - int i) # e) = 0" using Suc.prems(2) by simp
      then show "poly_coeff c e = 0" using poly_coeff_child[OF i(1)] f i by simp
    qed
    then show "all_zero c" using Suc.IH[of c] f \<open>c \<in> set gs\<close> by blast
  qed
  then show ?case using f by simp
qed

lemma rec_children:
  assumes IH: "\<And>g monom. shaped w g \<Longrightarrow>
      \<exists>ts. rec_list_terms g w monom = Inr ts \<and> distinct (map fst ts)
         \<and> set ts = {(monom @ e, c) | e c. length e = Suc w \<and> c \<noteq> 0 \<and> poly_coeff g e = c}"
  shows "\<forall>c\<in>set gs. shaped w c \<Longrightarrow>
     \<exists>tss. collect (map (\<lambda>(i, c). rec_list_terms c w (monom @ [d - int i])) (enumerate s gs)) = Inr tss
        \<and> distinct (map fst (concat tss))
        \<and> set (concat tss) = {(monom @ [d - int (s + i)] @ e, c) | i e c.
              i < length gs \<and> length e = Suc w \<and> c \<noteq> 0 \<and> poly_coeff (gs ! i) e = c}"
proof (induction gs arbitrary: s)
  case Nil
  then show ?case by simp
next
  case (Cons g gs)
  from Cons.prems have sg: "shaped w g" and sgs: "\<forall>c\<in>set gs. shaped w c" by simp_all
  from IH[OF sg, of "monom @ [d - int s]"] obtain ts where
    ts: "rec_list_terms g w (monom @ [d - int s]) = Inr ts" "distinct (map fst ts)"
    "set ts = {((monom @ [d - int s]) @ e, c) | e c. length e = Suc w \<and> c \<noteq> 0 \<and> poly_coeff g e = c}"
    by blast
  from Cons.IH[OF sgs, of "Suc s"] obtain tss where
    tss: "collect (map (\<lambda>(i, c). rec_list_terms c w (monom @ [d - int i])) (enumerate (Suc s) gs)) = Inr tss"
    "distinct (map fst (concat tss))"
    "set (concat tss) = {(monom @ [d - int (Suc s + i)] @ e, c) | i e c.
              i < length gs \<and> length e = Suc w \<and> c \<noteq> 0 \<and> poly_coeff (gs ! i) e = c}"
    by blast
  have c: "collect (map (\<lambda>(i, c). rec_list_terms c w (monom @ [d - int i])) (enumerate s (g # gs)))
             = Inr (ts # tss)"
    using ts(1) tss(1) by simp
  have disj: "set (map fst ts) \<inter> set (map fst (concat tss)) = {}"
  proof (rule ccontr)
    assume "set (map fst ts) \<inter> set (map fst (concat tss)) \<noteq> {}"
    then obtain m where m: "m \<in> fst ` set ts" "m \<in> fst ` set (concat tss)" by auto
    from m(1) ts(3) obtain e where e: "m = (monom @ [d - int s]) @ e" by auto
    from m(2) tss(3) obtain i e' where e': "m = monom @ [d - int (Suc s + i)] @ e'" by auto
    from e e' have "d - int s = d - int (Suc s + i)" by simp
    then show False by simp
  qed
  have d: "distinct (map fst (concat (ts # tss)))"
    using ts(2) tss(2) disj by simp
  have "set (concat (ts # tss)) = {(monom @ [d - int (s + i)] @ e, c) | i e c.
              i < length (g # gs) \<and> length e = Suc w \<and> c \<noteq> 0 \<and> poly_coeff ((g # gs) ! i) e = c}"
    (is "?L = ?R")
  proof (intro set_eqI iffI)
    fix x assume "x \<in> ?L"
    then consider "x \<in> set ts" | "x \<in> set (concat tss)" by auto
    then show "x \<in> ?R"
    proof cases
      case 1
      with ts(3) obtain e c where "x = ((monom @ [d - int s]) @ e, c)" "length e = Suc w" "c \<noteq> 0"
        "poly_coeff g e = c" by blast
      then have "x = (monom @ [d - int (s + 0)] @ e, c) \<and> 0 < length (g # gs) \<and> length e = Suc w
          \<and> c \<noteq> 0 \<and> poly_coeff ((g # gs) ! 0) e = c" by simp
      then show ?thesis by blast
    next
      case 2
      with tss(3) obtain i e c where "x = (monom @ [d - int (Suc s + i)] @ e, c)" "i < length gs"
        "length e = Suc w" "c \<noteq> 0" "poly_coeff (gs ! i) e = c" by blast
      then have "x = (monom @ [d - int (s + Suc i)] @ e, c) \<and> Suc i < length (g # gs) \<and> length e = Suc w
          \<and> c \<noteq> 0 \<and> poly_coeff ((g # gs) ! Suc i) e = c" by simp
      then show ?thesis by blast
    qed
  next
    fix x assume "x \<in> ?R"
    then obtain i e c where x: "x = (monom @ [d - int (s + i)] @ e, c)" "i < length (g # gs)"
      "length e = Suc w" "c \<noteq> 0" "poly_coeff ((g # gs) ! i) e = c" by blast
    show "x \<in> ?L"
    proof (cases i)
      case 0
      with x have "x \<in> set ts" using ts(3) by simp
      then show ?thesis by simp
    next
      case (Suc j)
      with x have "x = (monom @ [d - int (Suc s + j)] @ e, c) \<and> j < length gs \<and> length e = Suc w
        \<and> c \<noteq> 0 \<and> poly_coeff (gs ! j) e = c" by simp
      then have "x \<in> set (concat tss)" unfolding tss(3) by blast
      then show ?thesis by simp
    qed
  qed
  with c d show ?case by blast
qed


lemma rec_list_terms_spec:
  "shaped v g \<Longrightarrow>
     \<exists>ts. rec_list_terms g v monom = Inr ts \<and> distinct (map fst ts)
        \<and> set ts = {(monom @ e, c) | e c. length e = Suc v \<and> c \<noteq> 0 \<and> poly_coeff g e = c}"
proof (induction v arbitrary: g monom)
  case 0
  then obtain cs where g: "g = of_dup cs" using shaped_0_of_dup by blast
  show ?case unfolding g rec_list_terms_0
    using terms_0_set[of monom cs] terms_0_distinct[of monom cs] by blast
next
  case (Suc w)
  then obtain gs where g: "g = Dense gs" and sgs: "\<forall>c\<in>set gs. shaped w c" by (cases g) auto
  obtain b where b: "dmp_zero_p g (Suc w) = Inr b" using shaped_zero_p[OF Suc.prems] by blast
  define d where "d = (if b then - 1 else int (length gs) - 1)"
  have deg: "dmp_degree g (Suc w) = Inr d"
    using b g by (cases b) (simp_all add: dmp_degree_def d_def del: dmp_zero_p.simps)
  from rec_children[of w gs monom d 0, OF Suc.IH sgs] obtain tss where
    tss: "collect (map (\<lambda>(i, c). rec_list_terms c w (monom @ [d - int i])) (enumerate 0 gs)) = Inr tss"
    "distinct (map fst (concat tss))"
    "set (concat tss) = {(monom @ [d - int (0 + i)] @ e, c) | i e c.
              i < length gs \<and> length e = Suc w \<and> c \<noteq> 0 \<and> poly_coeff (gs ! i) e = c}"
    by blast
  have r: "rec_list_terms g (Suc w) monom = Inr (concat tss)"
    using deg tss(1) g by (simp del: dmp_zero_p.simps)
  have "set (concat tss) = {(monom @ e, c) | e c. length e = Suc (Suc w) \<and> c \<noteq> 0 \<and> poly_coeff g e = c}"
    (is "?L = ?R")
  proof (cases b)
    case True
    then have az: "all_zero g" using zero_p_all_zero[OF Suc.prems] b by simp
    then have R: "?R = {}" using all_zero_coeff[OF az] by auto
    have L: "?L = {}"
    proof -
      have "\<And>i e. i < length gs \<Longrightarrow> poly_coeff (gs ! i) e = 0"
        using az g all_zero_coeff by simp
      then show ?thesis unfolding tss(3) by auto
    qed
    show ?thesis by (simp only: L R)
  next
    case False
    then have d: "d = int (length gs) - 1" by (simp add: d_def)
    show ?thesis
    proof (intro set_eqI iffI)
      fix x assume "x \<in> ?L"
      then obtain i e c where x: "x = (monom @ [d - int i] @ e, c)" "i < length gs"
        "length e = Suc w" "c \<noteq> 0" "poly_coeff (gs ! i) e = c" unfolding tss(3) by auto
      have "poly_coeff g ((d - int i) # e) = c" using poly_coeff_child[OF x(2), of e] x(5) g d by simp
      with x have "x = (monom @ ((d - int i) # e), c) \<and> length ((d - int i) # e) = Suc (Suc w)
         \<and> c \<noteq> 0 \<and> poly_coeff g ((d - int i) # e) = c" by simp
      then show "x \<in> ?R" by blast
    next
      fix x assume "x \<in> ?R"
      then obtain e c where x: "x = (monom @ e, c)" "length e = Suc (Suc w)" "c \<noteq> 0"
        "poly_coeff g e = c" by blast
      then obtain k e' where e: "e = k # e'" "length e' = Suc w" by (cases e) auto
      with x g have k: "0 \<le> k" "k < int (length gs)" by (auto split: if_splits)
      let ?i = "length gs - 1 - nat k"
      have i: "?i < length gs" using k by linarith
      have ki: "d - int (0 + ?i) = k" using k d by simp
      have "poly_coeff (gs ! ?i) e' = c" using x(4) e g k by simp
      with x e i ki have "x = (monom @ [d - int (0 + ?i)] @ e', c) \<and> ?i < length gs
        \<and> length e' = Suc w \<and> c \<noteq> 0 \<and> poly_coeff (gs ! ?i) e' = c" by simp
      then show "x \<in> ?L" unfolding tss(3) by blast
    qed
  qed
  with r tss(2) show ?case by blast
qed

lemma shaped_dmp_zero: "shaped u (dmp_zero (int u))"
  by (induction u) simp_all

lemma all_zero_dmp_zero: "all_zero (dmp_zero (int u))"
  by (induction u) simp_all

lemma dmp_list_terms_shaped:
  assumes s: "shaped u f"
  shows "all_zero f \<Longrightarrow> dmp_list_terms f u = Inr [(replicate (u + 1) 0, 0)]"
    and "\<not> all_zero f \<Longrightarrow> \<exists>ts. dmp_list_terms f u = Inr ts \<and> distinct (map fst ts)
           \<and> set ts = {(e, c). length e = u + 1 \<and> c \<noteq> 0 \<and> poly_coeff f e = c}"
proof -
  from rec_list_terms_spec[OF s, of "[]"] obtain ts where
    ts: "rec_list_terms f u [] = Inr ts" "distinct (map fst ts)"
    "set ts = {([] @ e, c) | e c. length e = Suc u \<and> c \<noteq> 0 \<and> poly_coeff f e = c}" by blast
  then have st: "set ts = {(e, c). length e = u + 1 \<and> c \<noteq> 0 \<and> poly_coeff f e = c}" by auto
  {
    assume "all_zero f"
    then have "set ts = {}" unfolding st using all_zero_coeff by auto
    then show "dmp_list_terms f u = Inr [(replicate (u + 1) 0, 0)]"
      using ts(1) by (simp add: dmp_list_terms_def)
  }
  {
    assume nz: "\<not> all_zero f"
    have "ts \<noteq> []"
    proof
      assume "ts = []"
      then have "\<forall>e. length e = Suc u \<longrightarrow> poly_coeff f e = 0" using st by auto
      then have "all_zero f" by (rule coeff_all_zero[OF s])
      with nz show False by simp
    qed
    then have "dmp_list_terms f u = Inr ts" using ts(1) by (simp add: dmp_list_terms_def)
    then show "\<exists>ts. dmp_list_terms f u = Inr ts \<and> distinct (map fst ts)
           \<and> set ts = {(e, c). length e = u + 1 \<and> c \<noteq> 0 \<and> poly_coeff f e = c}"
      using ts(2) st by blast
  }
qed

text \<open>
  C9. \<open>dmp_list_terms\<close> applied to the zero polynomial of level \<open>u\<close> returns the single term
  with the all-zero exponent tuple of length \<open>u + 1\<close> and the zero coefficient, never the
  empty list; so it does for every value of that shape whose coefficients are all zero. For
  a value with a nonzero coefficient it returns exactly the nonzero terms: each monomial
  once, with its coefficient.
\<close>

theorem dmp_list_terms_spec:
  "dmp_list_terms (dmp_zero (int u)) u = Inr [(replicate (u + 1) 0, 0)] \<and>
   (shaped u f \<longrightarrow>
      (all_zero f \<longrightarrow> dmp_list_terms f u = Inr [(replicate (u + 1) 0, 0)]) \<and>
      (\<not> all_zero f \<longrightarrow>
         (\<exists>ts. dmp_list_terms f u = Inr ts \<and> distinct (map fst ts)
            \<and> set ts = {(e, c). length e = u + 1 \<and> c \<noteq> 0 \<and> poly_coeff f e = c})))"
  using dmp_list_terms_shaped[of u f]
    dmp_list_terms_shaped(1)[OF shaped_dmp_zero all_zero_dmp_zero, of u]
  by blast

theorem dmp_list_terms_spec_witness:
  "shaped 1 (Dense [Dense [Ground 1, Ground 1], Dense [Ground 2, Ground 3]])
   \<and> (\<exists>ts. dmp_list_terms (Dense [Dense [Ground 1, Ground 1], Dense [Ground 2, Ground 3]]) 1 = Inr ts
         \<and> distinct (map fst ts) \<and> ([0, 1], 2) \<in> set ts \<and> ([2, 0], 1) \<notin> set ts)
   \<and> dmp_list_terms (Dense [Dense [], Dense [Ground 0]]) 1 = Inr [([0, 0], 0)]"
proof -
  let ?f = "Dense [Dense [Ground 1, Ground 1], Dense [Ground 2, Ground 3]]"
  let ?z = "Dense [Dense [], Dense [Ground 0]]"
  have s: "shaped 1 ?f" "shaped 1 ?z" by (simp_all add: numeral_eq_Suc)
  have n: "\<not> all_zero ?f" "all_zero ?z" by simp_all
  from dmp_list_terms_spec[of 1 ?f] s n obtain ts where
    ts: "dmp_list_terms ?f 1 = Inr ts" "distinct (map fst ts)"
    "set ts = {(e, c). length e = 1 + 1 \<and> c \<noteq> 0 \<and> poly_coeff ?f e = c}" by blast
  have "poly_coeff ?f [0, 1] = 2" "poly_coeff ?f [2, 0] = 0" by simp_all
  then have m: "([0, 1], 2) \<in> set ts" "([2, 0], 1) \<notin> set ts" unfolding ts(3) by simp_all
  from dmp_list_terms_spec[of 1 ?z] s n
  have "dmp_list_terms ?z 1 = Inr [(replicate (1 + 1) 0, 0)]" by blast
  then have "dmp_list_terms ?z 1 = Inr [([0, 0], 0)]" by (simp add: numeral_eq_Suc)
  with s ts m show ?thesis by blast
qed

section \<open>Sparse maps and back\<close>

lemma setitem_fresh: "k \<notin> fst ` set d \<Longrightarrow> setitem k v d = d @ [(k, v)]"
  by (induction d) auto

lemma dup_to_dict_cons:
  "dup_to_dict (c # cs) False =
     (if c \<noteq> 0 then setitem [int (length cs)] c (dup_to_dict cs False) else dup_to_dict cs False)"
proof -
  let ?n = "length cs"
  define step where "step = (\<lambda>(f::int list) k result. if f ! (length f - 1 - k) \<noteq> 0
                             then setitem [int k] (f ! (length f - 1 - k)) result
                             else result)"
  have d: "dup_to_dict f False = fold (step f) [0..<length f] []" for f
    by (simp add: dup_to_dict_def step_def)
  have "fold (step (c # cs)) [0..<?n] [] = fold (step cs) [0..<?n] []"
  proof (rule fold_cong)
    fix k assume "k \<in> set [0..<?n]"
    then have k: "k < ?n" by simp
    then have "(c # cs) ! (length (c # cs) - 1 - k) = cs ! (?n - 1 - k)"
      by (simp add: nth_Cons')
    then show "step (c # cs) k = step cs k" unfolding step_def by (simp only:)
  qed simp_all
  then have "fold (step (c # cs)) [0..<Suc ?n] [] = step (c # cs) ?n (dup_to_dict cs False)"
    by (simp add: d)
  moreover have "step (c # cs) ?n r = (if c \<noteq> 0 then setitem [int ?n] c r else r)" for r
    by (simp add: step_def)
  ultimately show ?thesis using d[of "c # cs"] by simp
qed

lemma dup_to_dict_nil [simp]: "dup_to_dict [] False = []"
  by (simp add: dup_to_dict_def)

lemma dup_to_dict_keys:
  "m \<in> fst ` set (dup_to_dict cs False) \<Longrightarrow> \<exists>k<length cs. m = [int k]"
proof (induction cs arbitrary: m)
  case Nil
  then show ?case by simp
next
  case (Cons c cs)
  have fresh: "[int (length cs)] \<notin> fst ` set (dup_to_dict cs False)"
    using Cons.IH by fastforce
  show ?case
  proof (cases "c = 0")
    case True
    with Cons show ?thesis by (auto simp: dup_to_dict_cons less_Suc_eq)
  next
    case False
    with Cons.prems fresh have "m \<in> fst ` set (dup_to_dict cs False) \<or> m = [int (length cs)]"
      by (auto simp: dup_to_dict_cons setitem_fresh)
    with Cons.IH show ?thesis by (auto simp: less_Suc_eq)
  qed
qed

lemma dup_to_dict_fresh: "[int (length cs)] \<notin> fst ` set (dup_to_dict cs False)"
  using dup_to_dict_keys[of "[int (length cs)]" cs] by auto

lemma dup_to_dict_snoc: 
  "dup_to_dict (c # cs) False =
     (if c \<noteq> 0 then dup_to_dict cs False @ [([int (length cs)], c)] else dup_to_dict cs False)"
  by (simp add: dup_to_dict_cons setitem_fresh dup_to_dict_fresh)

lemma dup_to_dict_distinct: "distinct (map fst (dup_to_dict cs False))"
  by (induction cs) (auto simp: dup_to_dict_snoc dup_to_dict_fresh)

lemma dup_to_dict_lookup:
  "k < length cs \<Longrightarrow>
     (case map_of (dup_to_dict cs False) [int k] of None \<Rightarrow> 0 | Some x \<Rightarrow> x) = cs ! (length cs - 1 - k)"
proof (induction cs)
  case Nil
  then show ?case by simp
next
  case (Cons c cs)
  let ?D = "dup_to_dict cs False"
  show ?case
  proof (cases "k = length cs")
    case True
    have "map_of ?D [int (length cs)] = None"
      using dup_to_dict_fresh[of cs] by (simp add: map_of_eq_None_iff)
    with True show ?thesis by (simp add: dup_to_dict_snoc map_add_def)
  next
    case False
    with Cons.prems have k: "k < length cs" by simp
    have idx: "(c # cs) ! (length (c # cs) - 1 - k) = cs ! (length cs - 1 - k)"
      using k by (simp add: nth_Cons')
    have "map_of (?D @ [([int (length cs)], c)]) [int k] = map_of ?D [int k]"
      using False by (simp add: map_add_def split: option.splits)
    then show ?thesis using Cons.IH[OF k] idx by (simp add: dup_to_dict_snoc)
  qed
qed

lemma rev_upt_map: "map (\<lambda>k. cs ! (length cs - 1 - k)) (rev [0..<length cs]) = cs"
proof (rule nth_equalityI)
  show "length (map (\<lambda>k. cs ! (length cs - 1 - k)) (rev [0..<length cs])) = length cs" by simp
next
  fix i assume "i < length (map (\<lambda>k. cs ! (length cs - 1 - k)) (rev [0..<length cs]))"
  then have i: "i < length cs" by simp
  then show "map (\<lambda>k. cs ! (length cs - 1 - k)) (rev [0..<length cs]) ! i = cs ! i"
    by (simp add: rev_nth)
qed

lemma py_max_snoc: "\<forall>y\<in>set xs. y \<le> x \<Longrightarrow> py_max (xs @ [x]) = (x::'a::linorder)"
proof -
  assume a: "\<forall>y\<in>set xs. y \<le> x"
  have f: "\<And>a. a \<le> x \<Longrightarrow> \<forall>y\<in>set ys. y \<le> x \<Longrightarrow> fold max (ys @ [x]) a = x" for ys
  proof (induction ys)
    case Nil
    then show ?case by (simp add: max_def)
  next
    case (Cons y ys)
    then show ?case by simp
  qed
  show ?thesis
  proof (cases xs)
    case Nil
    then show ?thesis by (simp add: py_max_def)
  next
    case (Cons y ys)
    with a f[of y ys] show ?thesis by (simp add: py_max_def)
  qed
qed

lemma dup_roundtrip: "dup_from_dict (dup_to_dict cs False) = Inr (dup_strip cs)"
proof (induction cs)
  case Nil
  then show ?case by (simp add: dup_from_dict_def dup_strip_def)
next
  case (Cons c cs)
  let ?D = "dup_to_dict cs False"
  let ?n = "length cs"
  show ?case
  proof (cases "c = 0")
    case True
    then have "dup_strip (c # cs) = dup_strip cs" by (simp add: dup_strip_dropWhile)
    with True Cons show ?thesis by (simp add: dup_to_dict_snoc)
  next
    case False
    let ?D' = "?D @ [([int ?n], c)]"
    have le: "\<forall>y\<in>set (map fst ?D). y \<le> [int ?n]"
    proof
      fix y assume "y \<in> set (map fst ?D)"
      then obtain k where "k < ?n" "y = [int k]" using dup_to_dict_keys[of y cs] by auto
      then show "y \<le> [int ?n]" by simp
    qed
    have mx: "py_max (map fst ?D') = [int ?n]" using py_max_snoc[OF le] by simp
    have xr: "xrange_down (int ?n) = int ?n # map int (rev [0..<?n])"
      by (simp add: xrange_down_def nat_add_distrib)
    have "map_of ?D [int ?n] = None"
      using dup_to_dict_fresh[of cs] by (simp only: map_of_eq_None_iff not_False_eq_True)
    then have top: "map_of ?D' [int ?n] = Some c" by (simp add: map_add_def)
    have low: "map (\<lambda>k. case map_of ?D' [k] of None \<Rightarrow> 0 | Some x \<Rightarrow> x) (map int (rev [0..<?n])) = cs"
    proof -
      have "map (\<lambda>k. case map_of ?D' [k] of None \<Rightarrow> 0 | Some x \<Rightarrow> x) (map int (rev [0..<?n]))
            = map (\<lambda>k. cs ! (?n - 1 - k)) (rev [0..<?n])"
      proof (simp only: map_map, rule map_cong[OF refl])
        fix k assume "k \<in> set (rev [0..<?n])"
        then have k: "k < ?n" by simp
        have "map_of ?D' [int k] = map_of ?D [int k]"
          using k by (simp add: map_add_def split: option.splits)
        then show "((\<lambda>k. case map_of ?D' [k] of None \<Rightarrow> 0 | Some x \<Rightarrow> x) \<circ> int) k = cs ! (?n - 1 - k)"
          using dup_to_dict_lookup[OF k] by simp
      qed
      then show ?thesis by (simp only: rev_upt_map)
    qed
    have "dup_from_dict ?D' = Inr (dup_strip (c # cs))"
      using mx xr top low by (simp add: dup_from_dict_def)
    moreover have "dup_to_dict (c # cs) False = ?D'" using False by (simp add: dup_to_dict_snoc)
    ultimately show ?thesis by simp
  qed
qed

lemma dup_to_dict_empty: "dup_to_dict cs False = [] \<longleftrightarrow> dup_strip cs = []"
proof (induction cs)
  case Nil
  then show ?case by (simp add: dup_strip_def)
next
  case (Cons c cs)
  then show ?case by (simp add: dup_to_dict_snoc dup_strip_dropWhile)
qed

lemma setitem_last: "k \<notin> fst ` set acc \<Longrightarrow> setitem k x (acc @ [(k, y)]) = acc @ [(k, x)]"
  by (induction acc) auto

lemma map_of_last: "k \<notin> fst ` set acc \<Longrightarrow> map_of (acc @ [(k, y)]) k = Some y"
  by (induction acc) auto

lemma map_of_fresh: "k \<notin> fst ` set acc \<Longrightarrow> map_of acc k = None"
  by (simp add: map_of_eq_None_iff)

lemma add_terms_append:
  "distinct (map fst h) \<Longrightarrow> \<forall>e\<in>fst ` set h. k # e \<notin> fst ` set result \<Longrightarrow>
     add_terms k h result = result @ map (\<lambda>(e, c). (k # e, c)) h"
proof (induction h arbitrary: result)
  case Nil
  then show ?case by (simp add: add_terms_def)
next
  case (Cons t h)
  obtain e c where t: "t = (e, c)" by (cases t)
  from Cons.prems t have fr: "k # e \<notin> fst ` set result" by simp
  let ?r = "result @ [(k # e, c)]"
  have d: "distinct (map fst h)" using Cons.prems(1) by simp
  have "\<forall>e'\<in>fst ` set h. k # e' \<notin> fst ` set ?r"
    using Cons.prems t by auto
  from Cons.IH[OF d this] have "add_terms k h ?r = ?r @ map (\<lambda>(e, c). (k # e, c)) h" .
  moreover have "add_terms k (t # h) result = add_terms k h (setitem (k # e) c result)"
    by (simp add: add_terms_def t)
  ultimately show ?case using setitem_fresh[OF fr] t by simp
qed

lemma to_dict_loop_0 [simp]: "to_dict_loop cs v 0 = Inr []"
  by (simp add: to_dict_loop_def)

lemma to_dict_loop_Suc:
  "to_dict_loop cs v (Suc m) =
     (case to_dict_loop cs v m of
        Inl e \<Rightarrow> Inl e
      | Inr result \<Rightarrow>
          (case dmp_to_dict (cs ! (length cs - 1 - m)) v False of
             Inl e \<Rightarrow> Inl e
           | Inr h \<Rightarrow> Inr (add_terms (int m) h result)))"
  unfolding to_dict_loop_def
  by (simp only: upt_Suc_append le0 fold_append fold_Cons fold_Nil o_apply id_apply)

lemma to_dict_loop_cons: "m \<le> length cs \<Longrightarrow> to_dict_loop (c # cs) v m = to_dict_loop cs v m"
proof (induction m)
  case 0
  then show ?case by simp
next
  case (Suc m)
  then have "(c # cs) ! (length (c # cs) - 1 - m) = cs ! (length cs - 1 - m)"
    by (simp add: nth_Cons')
  with Suc show ?case by (simp only: to_dict_loop_Suc)
qed

lemma group_terms_append:
  "group_terms (xs @ ys) acc =
     (case group_terms xs acc of Inl e \<Rightarrow> Inl e | Inr a \<Rightarrow> group_terms ys a)"
  by (induction xs arbitrary: acc) (auto split: sum.splits)

lemma group_block:
  "k \<notin> fst ` set acc \<Longrightarrow> distinct (map fst (h0 @ h)) \<Longrightarrow>
     group_terms (map (\<lambda>(e, c). (k # e, c)) h) (acc @ [(k, h0)]) = Inr (acc @ [(k, h0 @ h)])"
proof (induction h arbitrary: h0)
  case Nil
  then show ?case by simp
next
  case (Cons t h)
  obtain e c where t: "t = (e, c)" by (cases t)
  have fr: "e \<notin> fst ` set h0" using Cons.prems(2) t by auto
  have d: "distinct (map fst ((h0 @ [(e, c)]) @ h))" using Cons.prems(2) t by simp
  have "group_term (k # e, c) (acc @ [(k, h0)]) = Inr (acc @ [(k, h0 @ [(e, c)])])"
    using map_of_last[OF Cons.prems(1)] setitem_last[OF Cons.prems(1)] setitem_fresh[OF fr]
    by simp
  then show ?case using Cons.IH[OF Cons.prems(1) d] t by simp
qed

lemma group_block_new:
  assumes k: "k \<notin> fst ` set acc" and d: "distinct (map fst h)" and ne: "h \<noteq> []"
  shows "group_terms (map (\<lambda>(e, c). (k # e, c)) h) acc = Inr (acc @ [(k, h)])"
proof -
  from ne obtain e c h' where h: "h = (e, c) # h'" by (cases h) auto
  have "group_term (k # e, c) acc = Inr (acc @ [(k, [(e, c)])])"
    using map_of_fresh[OF k] setitem_fresh[OF k] by simp
  moreover have "group_terms (map (\<lambda>(e, c). (k # e, c)) h') (acc @ [(k, [(e, c)])])
                   = Inr (acc @ [(k, [(e, c)] @ h')])"
    using group_block[OF k, of "[(e, c)]" h'] d h by simp
  ultimately show ?thesis using h by simp
qed

lemma collect_map_Inr: "collect (map Inr xs) = Inr xs"
  by (induction xs) simp_all

lemma normal_Dense: "normal v c \<Longrightarrow> \<exists>cs. c = Dense cs"
  by (cases c) auto

lemma normal_zero_p: "normal v c \<Longrightarrow> dmp_zero_p c v = Inr (c = dmp_zero (int v))"
proof (induction v arbitrary: c)
  case 0
  then obtain cs where "c = Dense cs" using normal_Dense by blast
  then show ?case by simp
next
  case (Suc v)
  then obtain cs where c: "c = Dense cs" using normal_Dense by blast
  with Suc.prems have n: "\<forall>x\<in>set cs. normal v x" "cs \<noteq> []"
    "hd cs = dmp_zero (int v) \<longrightarrow> length cs = 1" by simp_all
  show ?case
  proof (cases "length cs = 1")
    case True
    then obtain x where x: "cs = [x]" by (cases cs) auto
    with n Suc.IH[of x] c show ?thesis by simp
  next
    case False
    with c n show ?thesis by (cases cs) auto
  qed
qed

lemma normal_count_zeros: "\<forall>c\<in>set cs. normal v c \<Longrightarrow> \<exists>i. count_zeros cs v = Inr i"
proof (induction cs)
  case Nil
  then show ?case by simp
next
  case (Cons c cs)
  then obtain i where "count_zeros cs v = Inr i" by auto
  with Cons.prems normal_zero_p[of v c] show ?case by (cases "c = dmp_zero (int v)") simp_all
qed

lemma normal_strip_id: "normal (Suc v) f \<Longrightarrow> dmp_strip f (Suc v) = Inr f"
proof -
  assume n: "normal (Suc v) f"
  then obtain cs where f: "f = Dense cs" using normal_Dense by blast
  with n obtain c cs' where cs: "cs = c # cs'" "normal v c" by (cases cs) auto
  show ?thesis
  proof (cases "c = dmp_zero (int v)")
    case True
    with n f cs have "f = dmp_zero (int (Suc v))" by simp
    then show ?thesis using normal_zero_p[OF n] by (simp add: dmp_strip_def del: dmp_zero_p.simps)
  next
    case False
    then have "dmp_zero_p c v = Inr False" using normal_zero_p[OF cs(2)] by simp
    then show ?thesis using f cs dmp_strip_lead by simp
  qed
qed

lemma strip_cons_zero:
  assumes n: "\<forall>c\<in>set cs. normal v c"
  shows "dmp_strip (Dense (dmp_zero (int v) # cs)) (Suc v) = dmp_strip (Dense cs) (Suc v)"
proof -
  let ?z = "dmp_zero (int v)"
  obtain i where i: "count_zeros cs v = Inr i" using normal_count_zeros[OF n] by blast
  have iz: "count_zeros (?z # cs) v = Inr (Suc i)" using i by simp
  show ?thesis
  proof (cases cs)
    case Nil
    then show ?thesis by (simp add: dmp_strip_def)
  next
    case (Cons c cs')
    show ?thesis
    proof (cases cs')
      case Nil
      with Cons n have nc: "normal v c" by simp
      show ?thesis
      proof (cases "c = ?z")
        case True
        with Cons Nil show ?thesis by (simp add: dmp_strip_def)
      next
        case False
        then have "dmp_zero_p c v = Inr False" using normal_zero_p[OF nc] by simp
        with Cons Nil show ?thesis by (simp add: dmp_strip_def)
      qed
    next
      case (Cons c' cs'')
      with \<open>cs = c # cs'\<close> have l: "length cs \<noteq> 1" "length (?z # cs) \<noteq> 1" by simp_all
      then have "dmp_zero_p (Dense cs) (Suc v) = Inr False"
        "dmp_zero_p (Dense (?z # cs)) (Suc v) = Inr False" by simp_all
      then show ?thesis using i iz by (simp add: dmp_strip_def del: dmp_zero_p.simps count_zeros.simps)
    qed
  qed
qed

lemma prefix_keys: "fst ` set (map (\<lambda>(e, c). (k # e, c)) h) = (\<lambda>e. k # e) ` fst ` set h"
  by (force simp: image_iff)

lemma prefix_distinct:
  "distinct (map fst h) \<Longrightarrow> distinct (map fst (map (\<lambda>(e, c). (k # e, c)) (h::('a list \<times> 'b) list)))"
proof -
  assume d: "distinct (map fst h)"
  have "map fst (map (\<lambda>(e, c). (k # e, c)) h) = map (\<lambda>e. k # e) (map fst h)"
    by (simp add: comp_def case_prod_beta)
  moreover have "distinct (map (\<lambda>e. k # e) (map fst h))"
    using d by (simp only: distinct_map) (simp add: inj_on_def)
  ultimately show ?thesis by (simp only:)
qed

lemma loop_roundtrip:
  assumes Pv: "\<forall>c. normal v c \<longrightarrow>
      (\<exists>D. dmp_to_dict c v False = Inr D \<and> distinct (map fst D)
         \<and> (D = [] \<longleftrightarrow> c = dmp_zero (int v)) \<and> dmp_from_dict D v = Inr c)"
  shows "\<forall>c\<in>set cs. normal v c \<Longrightarrow>
    \<exists>r G. to_dict_loop cs v (length cs) = Inr r \<and> distinct (map fst r)
      \<and> (\<forall>m\<in>fst ` set r. \<exists>k e. m = int k # e \<and> k < length cs)
      \<and> group_terms r [] = Inr G
      \<and> (\<forall>k\<in>fst ` set G. 0 \<le> k \<and> k < int (length cs))
      \<and> (\<forall>i<length cs. case map_of G (int (length cs - 1 - i)) of
              Some d \<Rightarrow> dmp_from_dict d v = Inr (cs ! i)
            | None \<Rightarrow> cs ! i = dmp_zero (int v))
      \<and> (\<exists>g. dmp_from_dict r (Suc v) = Inr g \<and> dmp_strip (Dense cs) (Suc v) = Inr g
            \<and> (r = [] \<longleftrightarrow> g = dmp_zero (int (Suc v))))"
proof (induction cs)
  case Nil
  have "dmp_strip (Dense []) (Suc v) = Inr (dmp_zero (int (Suc v)))" by (simp add: dmp_strip_def)
  then show ?case
    by (intro exI[of _ "[]"]) (simp del: dmp_zero_Suc)
next
  case (Cons c cs)
  let ?n = "length cs"
  from Cons.prems have nc: "normal v c" and ncs: "\<forall>c\<in>set cs. normal v c" by simp_all
  from Cons.IH[OF ncs] obtain r G g where
    r: "to_dict_loop cs v ?n = Inr r" and dr: "distinct (map fst r)"
    and kr: "\<forall>m\<in>fst ` set r. \<exists>k e. m = int k # e \<and> k < ?n"
    and G: "group_terms r [] = Inr G"
    and kG: "\<forall>k\<in>fst ` set G. 0 \<le> k \<and> k < int ?n"
    and lk: "\<forall>i<?n. case map_of G (int (?n - 1 - i)) of
              Some d \<Rightarrow> dmp_from_dict d v = Inr (cs ! i)
            | None \<Rightarrow> cs ! i = dmp_zero (int v)"
    and g: "dmp_from_dict r (Suc v) = Inr g" "dmp_strip (Dense cs) (Suc v) = Inr g"
      "r = [] \<longleftrightarrow> g = dmp_zero (int (Suc v))"
    by (elim exE conjE) (rule that, assumption+)
  from Pv[rule_format, OF nc] obtain D where
    D: "dmp_to_dict c v False = Inr D" and dD: "distinct (map fst D)"
    and eD: "D = [] \<longleftrightarrow> c = dmp_zero (int v)" and fD: "dmp_from_dict D v = Inr c"
    by (elim exE conjE) (rule that, assumption+)
  let ?P = "map (\<lambda>(e, c). (int ?n # e, c)) D"
  let ?r' = "r @ ?P"
  have fresh: "\<forall>e\<in>fst ` set D. int ?n # e \<notin> fst ` set r"
  proof
    fix e assume "e \<in> fst ` set D"
    show "int ?n # e \<notin> fst ` set r"
    proof
      assume "int ?n # e \<in> fst ` set r"
      with kr obtain k e' where "int ?n # e = int k # e'" "k < ?n" by blast
      then show False by simp
    qed
  qed
  have r': "to_dict_loop (c # cs) v (length (c # cs)) = Inr ?r'"
  proof -
    have "to_dict_loop (c # cs) v ?n = Inr r" using to_dict_loop_cons[of ?n cs c v] r by simp
    moreover have "(c # cs) ! (length (c # cs) - 1 - ?n) = c" by simp
    ultimately have "to_dict_loop (c # cs) v (Suc ?n) = Inr (add_terms (int ?n) D r)"
      using D by (simp only: to_dict_loop_Suc) simp
    then show ?thesis using add_terms_append[OF dD fresh] by simp
  qed
  have nG: "int ?n \<notin> fst ` set G" using kG by auto
  have kr': "\<forall>m\<in>fst ` set ?r'. \<exists>k e. m = int k # e \<and> k < length (c # cs)"
  proof
    fix m assume "m \<in> fst ` set ?r'"
    then have "m \<in> fst ` set r \<or> m \<in> fst ` set ?P" by (simp only: set_append image_Un Un_iff)
    then consider "m \<in> fst ` set r" | "m \<in> fst ` set ?P" by blast
    then show "\<exists>k e. m = int k # e \<and> k < length (c # cs)"
    proof cases
      case 1
      with kr obtain k e where "m = int k # e" "k < ?n" by blast
      then have "m = int k # e \<and> k < length (c # cs)" by simp
      then show ?thesis by blast
    next
      case 2
      then obtain e where "m = int ?n # e" unfolding prefix_keys by auto
      then have "m = int ?n # e \<and> ?n < length (c # cs)" by simp
      then show ?thesis by blast
    qed
  qed
  have dr': "distinct (map fst ?r')"
  proof -
    have "fst ` set r \<inter> fst ` set ?P = {}"
    proof (rule ccontr)
      assume "fst ` set r \<inter> fst ` set ?P \<noteq> {}"
      then obtain m where m: "m \<in> fst ` set r" "m \<in> fst ` set ?P" by blast
      from m(2) obtain e where "m = int ?n # e" unfolding prefix_keys by auto
      moreover from m(1) kr obtain k e' where "m = int k # e'" "k < ?n" by blast
      ultimately show False by simp
    qed
    then have "set (map fst r) \<inter> set (map fst ?P) = {}" by (simp only: set_map)
    with dr prefix_distinct[OF dD, of "int ?n"] show ?thesis
      unfolding map_append distinct_append by (intro conjI)
  qed
  show ?case
  proof (cases "D = []")
    case True
    then have cz: "c = dmp_zero (int v)" using eD by simp
    have r'r: "?r' = r" using True by simp
    have lk': "\<forall>i<length (c # cs). case map_of G (int (length (c # cs) - 1 - i)) of
              Some d \<Rightarrow> dmp_from_dict d v = Inr ((c # cs) ! i)
            | None \<Rightarrow> (c # cs) ! i = dmp_zero (int v)"
    proof (intro allI impI)
      fix i assume i: "i < length (c # cs)"
      show "case map_of G (int (length (c # cs) - 1 - i)) of
              Some d \<Rightarrow> dmp_from_dict d v = Inr ((c # cs) ! i)
            | None \<Rightarrow> (c # cs) ! i = dmp_zero (int v)"
      proof (cases i)
        case 0
        then show ?thesis using map_of_fresh[OF nG] cz by simp
      next
        case (Suc j)
        with i have j: "j < ?n" by simp
        have e: "length (c # cs) - 1 - i = ?n - 1 - j" using Suc by simp
        have nth: "(c # cs) ! i = cs ! j" using Suc by simp
        from lk j have "case map_of G (int (?n - 1 - j)) of
              Some d \<Rightarrow> dmp_from_dict d v = Inr (cs ! j)
            | None \<Rightarrow> cs ! j = dmp_zero (int v)" by blast
        then show ?thesis by (simp only: e nth)
      qed
    qed
    have kG': "\<forall>k\<in>fst ` set G. 0 \<le> k \<and> k < int (length (c # cs))" using kG by auto
    have sg: "dmp_strip (Dense (c # cs)) (Suc v) = Inr g"
      using strip_cons_zero[OF ncs] cz g(2) by simp
    have r'': "to_dict_loop (c # cs) v (length (c # cs)) = Inr r" using r' r'r by simp
    have kr'': "\<forall>m\<in>fst ` set r. \<exists>k e. m = int k # e \<and> k < length (c # cs)"
      using kr' r'r by simp
    show ?thesis
    proof (intro exI conjI)
      show "to_dict_loop (c # cs) v (length (c # cs)) = Inr r" by (rule r'')
      show "distinct (map fst r)" by (rule dr)
      show "\<forall>m\<in>fst ` set r. \<exists>k e. m = int k # e \<and> k < length (c # cs)" by (rule kr'')
      show "group_terms r [] = Inr G" by (rule G)
      show "\<forall>k\<in>fst ` set G. 0 \<le> k \<and> k < int (length (c # cs))" by (rule kG')
      show "\<forall>i<length (c # cs). case map_of G (int (length (c # cs) - 1 - i)) of
              Some d \<Rightarrow> dmp_from_dict d v = Inr ((c # cs) ! i)
            | None \<Rightarrow> (c # cs) ! i = dmp_zero (int v)" by (rule lk')
      show "dmp_from_dict r (Suc v) = Inr g" by (rule g(1))
      show "dmp_strip (Dense (c # cs)) (Suc v) = Inr g" by (rule sg)
      show "(r = []) = (g = dmp_zero (int (Suc v)))" by (rule g(3))
    qed
  next
    case False
    then have cnz: "c \<noteq> dmp_zero (int v)" using eD by simp
    let ?G' = "G @ [(int ?n, D)]"
    have G': "group_terms ?r' [] = Inr ?G'"
      using G group_block_new[OF nG dD False] by (simp add: group_terms_append)
    have kG': "\<forall>k\<in>fst ` set ?G'. 0 \<le> k \<and> k < int (length (c # cs))" using kG by auto
    have low: "map_of ?G' (int k) = map_of G (int k)" if "k < ?n" for k
      using that by (simp add: map_add_def split: option.splits)
    have lk': "\<forall>i<length (c # cs). case map_of ?G' (int (length (c # cs) - 1 - i)) of
              Some d \<Rightarrow> dmp_from_dict d v = Inr ((c # cs) ! i)
            | None \<Rightarrow> (c # cs) ! i = dmp_zero (int v)"
    proof (intro allI impI)
      fix i assume i: "i < length (c # cs)"
      show "case map_of ?G' (int (length (c # cs) - 1 - i)) of
              Some d \<Rightarrow> dmp_from_dict d v = Inr ((c # cs) ! i)
            | None \<Rightarrow> (c # cs) ! i = dmp_zero (int v)"
      proof (cases i)
        case 0
        then show ?thesis using map_of_last[OF nG, of D] fD by simp
      next
        case (Suc j)
        with i have j: "j < ?n" by simp
        have e: "length (c # cs) - 1 - i = ?n - 1 - j" using Suc by simp
        have nth: "(c # cs) ! i = cs ! j" using Suc by simp
        have "?n - 1 - j < ?n" using j by simp
        from low[OF this] have l: "map_of ?G' (int (?n - 1 - j)) = map_of G (int (?n - 1 - j))" .
        from lk j have "case map_of G (int (?n - 1 - j)) of
              Some d \<Rightarrow> dmp_from_dict d v = Inr (cs ! j)
            | None \<Rightarrow> cs ! j = dmp_zero (int v)" by blast
        then show ?thesis by (simp only: e nth l)
      qed
    qed
    have mx: "py_max (map fst ?G') = int ?n"
    proof -
      have "\<forall>y\<in>set (map fst G). y \<le> int ?n" using kG by auto
      from py_max_snoc[OF this] show ?thesis by simp
    qed
    have xr: "xrange_down (int ?n) = int ?n # map int (rev [0..<?n])"
      by (simp add: xrange_down_def nat_add_distrib)
    let ?F = "\<lambda>k. case map_of ?G' k of Some coeff \<Rightarrow> dmp_from_dict coeff v
                                  | None \<Rightarrow> Inr (dmp_zero (int v))"
    have top: "?F (int ?n) = Inr c" using map_of_last[OF nG, of D] fD by simp
    have rest: "map ?F (map int (rev [0..<?n])) = map Inr cs"
    proof -
      have "map ?F (map int (rev [0..<?n])) = map (\<lambda>k. Inr (cs ! (?n - 1 - k))) (rev [0..<?n])"
      proof (simp only: map_map, rule map_cong[OF refl])
        fix k assume "k \<in> set (rev [0..<?n])"
        then have k: "k < ?n" by simp
        then have i: "?n - 1 - k < ?n" by simp
        have "?n - 1 - (?n - 1 - k) = k" using k by simp
        with lk i have "case map_of G (int k) of
              Some d \<Rightarrow> dmp_from_dict d v = Inr (cs ! (?n - 1 - k))
            | None \<Rightarrow> cs ! (?n - 1 - k) = dmp_zero (int v)" by metis
        then show "(?F \<circ> int) k = Inr (cs ! (?n - 1 - k))"
          using low[OF k] by (simp split: option.splits)
      qed
      also have "\<dots> = map Inr (map (\<lambda>k. cs ! (?n - 1 - k)) (rev [0..<?n]))" by simp
      finally show ?thesis by (simp only: rev_upt_map)
    qed
    have col: "collect (map ?F (xrange_down (py_max (map fst ?G')))) = Inr (c # cs)"
      using top rest by (simp only: mx xr list.map collect.simps collect_map_Inr) simp
    have st: "dmp_strip (Dense (c # cs)) (Suc v) = Inr (Dense (c # cs))"
      using dmp_strip_lead normal_zero_p[OF nc] cnz by simp
    have ne: "?r' \<noteq> []" using False by simp
    have fd: "dmp_from_dict ?r' (Suc v) = Inr (Dense (c # cs))"
      by (simp only: dmp_from_dict.simps(2) ne if_False G' sum.case col st)
    have nz: "Dense (c # cs) \<noteq> dmp_zero (int (Suc v))" using cnz by simp
    have iff: "(?r' = []) = (Dense (c # cs) = dmp_zero (int (Suc v)))" using ne nz by (simp only:)
    show ?thesis
    proof (intro exI conjI)
      show "to_dict_loop (c # cs) v (length (c # cs)) = Inr ?r'" by (rule r')
      show "distinct (map fst ?r')" by (rule dr')
      show "\<forall>m\<in>fst ` set ?r'. \<exists>k e. m = int k # e \<and> k < length (c # cs)" by (rule kr')
      show "group_terms ?r' [] = Inr ?G'" by (rule G')
      show "\<forall>k\<in>fst ` set ?G'. 0 \<le> k \<and> k < int (length (c # cs))" by (rule kG')
      show "\<forall>i<length (c # cs). case map_of ?G' (int (length (c # cs) - 1 - i)) of
              Some d \<Rightarrow> dmp_from_dict d v = Inr ((c # cs) ! i)
            | None \<Rightarrow> (c # cs) ! i = dmp_zero (int v)" by (rule lk')
      show "dmp_from_dict ?r' (Suc v) = Inr (Dense (c # cs))" by (rule fd)
      show "dmp_strip (Dense (c # cs)) (Suc v) = Inr (Dense (c # cs))" by (rule st)
      show "(?r' = []) = (Dense (c # cs) = dmp_zero (int (Suc v)))" by (rule iff)
    qed
  qed
qed

lemma setitem_map_of: "map_of (setitem k v d) = (map_of d)(k \<mapsto> v)"
  by (induction d) (auto simp: fun_eq_iff)

lemma setitem_keys: "fst ` set (setitem k v d) = insert k (fst ` set d)"
proof (induction d)
  case Nil
  then show ?case by simp
next
  case (Cons a d)
  obtain k' v' where a: "a = (k', v')" by (cases a)
  show ?case
  proof (cases "k = k'")
    case True
    with a show ?thesis by simp
  next
    case False
    have "fst ` set (setitem k v (a # d)) = insert k' (fst ` set (setitem k v d))"
      using a False by simp
    also have "\<dots> = insert k' (insert k (fst ` set d))" by (simp only: Cons.IH)
    finally show ?thesis using a by auto
  qed
qed

lemma setitem_distinct: "distinct (map fst d) \<Longrightarrow> distinct (map fst (setitem k v d))"
proof (induction d)
  case Nil
  then show ?case by simp
next
  case (Cons a d)
  obtain k' v' where a: "a = (k', v')" by (cases a)
  show ?case
  proof (cases "k = k'")
    case True
    with Cons a show ?thesis by simp
  next
    case False
    have "set (map fst (setitem k v d)) = insert k (fst ` set d)" using setitem_keys[of k v d] by simp
    with Cons a False show ?thesis by auto
  qed
qed

lemma setitem_nonempty: "setitem k v d \<noteq> []"
  by (cases d) (auto split: if_splits)

lemma setitem_set_other: "(k', x) \<in> set (setitem k v d) \<Longrightarrow> k' \<noteq> k \<Longrightarrow> (k', x) \<in> set d"
  by (induction d) (auto split: if_splits)

lemma setitem_set_same: "distinct (map fst d) \<Longrightarrow> (k, x) \<in> set (setitem k v d) \<Longrightarrow> x = v"
proof -
  assume d: "distinct (map fst d)" and m: "(k, x) \<in> set (setitem k v d)"
  have "map_of (setitem k v d) k = Some x" using setitem_distinct[OF d] m by simp
  then show ?thesis by (simp add: setitem_map_of)
qed

lemma group_term_step:
  assumes g: "grouped G"
  shows "\<exists>G'. group_term (k # e, c) G = Inr G' \<and> grouped G'
           \<and> (\<forall>k' e'. group_lookup G' k' e' = (if k' = k \<and> e' = e then Some c else group_lookup G k' e'))"
proof (cases "map_of G k")
  case None
  let ?G' = "setitem k [(e, c)] G"
  have r: "group_term (k # e, c) G = Inr ?G'" using None by simp
  have gr: "grouped ?G'"
    unfolding grouped_def
  proof (intro conjI ballI)
    show "distinct (map fst ?G')" using g by (auto simp: grouped_def intro: setitem_distinct)
  next
    fix x assume x: "x \<in> set ?G'"
    obtain k' d where kd: "x = (k', d)" by (cases x)
    show "case x of (k, d) \<Rightarrow> distinct (map fst d) \<and> d \<noteq> []"
    proof (cases "k' = k")
      case True
      then have "d = [(e, c)]" using setitem_set_same[of G k d "[(e, c)]"] x kd g
        by (simp add: grouped_def)
      with kd show ?thesis by simp
    next
      case False
      then have "(k', d) \<in> set G" using setitem_set_other x kd by fastforce
      with g kd show ?thesis by (auto simp: grouped_def)
    qed
  qed
  have lk: "\<forall>k' e'. group_lookup ?G' k' e' = (if k' = k \<and> e' = e then Some c else group_lookup G k' e')"
    using None by (auto simp: group_lookup_def setitem_map_of)
  from r gr lk show ?thesis by blast
next
  case (Some d0)
  let ?d = "setitem e c d0"
  let ?G' = "setitem k ?d G"
  have r: "group_term (k # e, c) G = Inr ?G'" using Some by simp
  have d0: "distinct (map fst d0)" using g map_of_SomeD[OF Some] by (auto simp: grouped_def)
  have gr: "grouped ?G'"
    unfolding grouped_def
  proof (intro conjI ballI)
    show "distinct (map fst ?G')" using g by (auto simp: grouped_def intro: setitem_distinct)
  next
    fix x assume x: "x \<in> set ?G'"
    obtain k' d where kd: "x = (k', d)" by (cases x)
    show "case x of (k, d) \<Rightarrow> distinct (map fst d) \<and> d \<noteq> []"
    proof (cases "k' = k")
      case True
      then have "d = ?d" using setitem_set_same[of G k d ?d] x kd g
        by (simp add: grouped_def)
      with kd show ?thesis using setitem_distinct[OF d0] setitem_nonempty by simp
    next
      case False
      then have "(k', d) \<in> set G" using setitem_set_other x kd by fastforce
      with g kd show ?thesis by (auto simp: grouped_def)
    qed
  qed
  have lk: "\<forall>k' e'. group_lookup ?G' k' e' = (if k' = k \<and> e' = e then Some c else group_lookup G k' e')"
    using Some by (auto simp: group_lookup_def setitem_map_of)
  from r gr lk show ?thesis by blast
qed

lemma group_terms_sem:
  "grouped acc \<Longrightarrow> [] \<notin> fst ` set ts \<Longrightarrow> distinct (map fst ts) \<Longrightarrow>
   \<exists>G. group_terms ts acc = Inr G \<and> grouped G
      \<and> (\<forall>k e. group_lookup G k e = (case map_of ts (k # e) of Some c \<Rightarrow> Some c
                                         | None \<Rightarrow> group_lookup acc k e))"
proof (induction ts arbitrary: acc)
  case Nil
  then show ?case by simp
next
  case (Cons t ts)
  obtain m c where t: "t = (m, c)" by (cases t)
  with Cons.prems(2) obtain k e where m: "m = k # e" by (cases m) auto
  from group_term_step[OF Cons.prems(1), of k e c] obtain acc' where
    a: "group_term (k # e, c) acc = Inr acc'" "grouped acc'"
    "\<forall>k' e'. group_lookup acc' k' e' = (if k' = k \<and> e' = e then Some c else group_lookup acc k' e')"
    by blast
  have ne: "[] \<notin> fst ` set ts" using Cons.prems(2) by auto
  have d: "distinct (map fst ts)" using Cons.prems(3) by simp
  from Cons.IH[OF a(2) ne d] obtain G where
    G: "group_terms ts acc' = Inr G" "grouped G"
    "\<forall>k e. group_lookup G k e = (case map_of ts (k # e) of Some c \<Rightarrow> Some c
                                   | None \<Rightarrow> group_lookup acc' k e)"
    by blast
  have fr: "map_of ts (k # e) = None"
    using Cons.prems(3) t m by (simp add: map_of_eq_None_iff)
  have "\<forall>k' e'. group_lookup G k' e' = (case map_of (t # ts) (k' # e') of Some c \<Rightarrow> Some c
                                   | None \<Rightarrow> group_lookup acc k' e')"
  proof (intro allI)
    fix k' e'
    show "group_lookup G k' e' = (case map_of (t # ts) (k' # e') of Some c \<Rightarrow> Some c
                                   | None \<Rightarrow> group_lookup acc k' e')"
    proof (cases "k' = k \<and> e' = e")
      case True
      have "group_lookup acc' k e = Some c" using a(3) by simp
      moreover have "group_lookup G k e = group_lookup acc' k e" using G(3) fr by simp
      moreover have "map_of (t # ts) (k # e) = Some c" using t m by simp
      ultimately have "group_lookup G k e = (case map_of (t # ts) (k # e) of Some c \<Rightarrow> Some c
                                   | None \<Rightarrow> group_lookup acc k e)" by simp
      with True show ?thesis by blast
    next
      case False
      then have ne: "k' # e' \<noteq> k # e" by simp
      have 1: "map_of (t # ts) (k' # e') = map_of ts (k' # e')" using False unfolding t m by auto
      have 2: "group_lookup acc' k' e' = group_lookup acc k' e'" using a(3) False by metis
      have "group_lookup G k' e' = (case map_of ts (k' # e') of Some c \<Rightarrow> Some c
                                   | None \<Rightarrow> group_lookup acc' k' e')" using G(3) by blast
      then show ?thesis by (simp only: 1 2)
    qed
  qed
  with G(1,2) a(1) t m show ?case by simp
qed

lemma group_terms_error: "[] \<in> fst ` set ts \<Longrightarrow> grouped acc \<Longrightarrow> group_terms ts acc = Inl IndexError"
proof (induction ts arbitrary: acc)
  case Nil
  then show ?case by simp
next
  case (Cons t ts)
  obtain m c where t: "t = (m, c)" by (cases t)
  show ?case
  proof (cases m)
    case Nil
    with t show ?thesis by simp
  next
    case (Cons k e)
    from group_term_step[OF Cons.prems(2), of k e c] obtain acc' where
      a: "group_term (k # e, c) acc = Inr acc'" "grouped acc'" by blast
    have "[] \<in> fst ` set ts" using Cons.prems(1) t Cons by auto
    from Cons.IH[OF this a(2)] a(1) t Cons show ?thesis by simp
  qed
qed

lemma grouped_keys: "grouped G \<Longrightarrow> k \<in> fst ` set G \<longleftrightarrow> (\<exists>e. group_lookup G k e \<noteq> None)"
proof
  assume g: "grouped G" and "k \<in> fst ` set G"
  then obtain d where kd: "(k, d) \<in> set G" by auto
  with g have d: "d \<noteq> []" and m: "map_of G k = Some d" by (auto simp: grouped_def)
  then obtain e c d' where "d = (e, c) # d'" by (cases d) auto
  then have "map_of d e = Some c" by simp
  with m have "group_lookup G k e \<noteq> None" by (simp add: group_lookup_def)
  then show "\<exists>e. group_lookup G k e \<noteq> None" by blast
next
  assume "grouped G" and "\<exists>e. group_lookup G k e \<noteq> None"
  then obtain d where "map_of G k = Some d" by (auto simp: group_lookup_def split: option.splits)
  then have "(k, d) \<in> set G" by (rule map_of_SomeD)
  then show "k \<in> fst ` set G" by force
qed

lemma py_max_Max: "xs \<noteq> [] \<Longrightarrow> py_max xs = Max (set xs)"
proof -
  assume "xs \<noteq> []"
  then obtain x xs' where "xs = x # xs'" by (cases xs) auto
  then show ?thesis by (simp only: py_max_def list.sel Max.set_eq_fold)
qed

lemma grouped_Nil: "grouped []"
  by (simp add: grouped_def)

lemma dup_from_dict_perm:
  assumes "distinct (map fst f)" "distinct (map fst f')" "set f = set f'"
  shows "dup_from_dict f = dup_from_dict f'"
proof -
  have m: "map_of f = map_of f'" using assms by (simp add: map_of_inject_set)
  have e: "f = [] \<longleftrightarrow> f' = []" using assms(3) by (metis set_empty)
  have k: "set (map fst f) = set (map fst f')" using assms(3) by simp
  show ?thesis
  proof (cases "f = []")
    case True
    with e show ?thesis by simp
  next
    case False
    with e have ne: "f' \<noteq> []" by simp
    have pm: "py_max (map fst f) = py_max (map fst f')" using False ne k by (simp add: py_max_Max)
    show ?thesis unfolding dup_from_dict_def by (simp only: m pm False ne if_False)
  qed
qed

lemma dmp_from_dict_perm:
  "distinct (map fst f) \<Longrightarrow> distinct (map fst f') \<Longrightarrow> set f = set f' \<Longrightarrow>
     dmp_from_dict f u = dmp_from_dict f' u"
proof (induction u arbitrary: f f')
  case 0
  then show ?case using dup_from_dict_perm[of f f'] by simp
next
  case (Suc v)
  have m: "map_of f = map_of f'" using Suc.prems by (simp add: map_of_inject_set)
  have e: "f = [] \<longleftrightarrow> f' = []" using Suc.prems(3) by (metis set_empty)
  have k: "fst ` set f = fst ` set f'" using Suc.prems(3) by simp
  show ?case
  proof (cases "f = []")
    case True
    with e show ?thesis by simp
  next
    case False
    with e have ne: "f \<noteq> []" "f' \<noteq> []" by simp_all
    show ?thesis
    proof (cases "[] \<in> fst ` set f")
      case True
      then have "group_terms f [] = Inl IndexError" "group_terms f' [] = Inl IndexError"
        using group_terms_error grouped_Nil k by auto
      with ne show ?thesis by simp
    next
      case F: False
      from group_terms_sem[OF grouped_Nil F Suc.prems(1)] obtain G where
        G: "group_terms f [] = Inr G" "grouped G"
        "\<forall>k e. group_lookup G k e = (case map_of f (k # e) of Some c \<Rightarrow> Some c
                                   | None \<Rightarrow> group_lookup [] k e)" by blast
      from F k have "[] \<notin> fst ` set f'" by simp
      from group_terms_sem[OF grouped_Nil this Suc.prems(2)] obtain G' where
        G': "group_terms f' [] = Inr G'" "grouped G'"
        "\<forall>k e. group_lookup G' k e = (case map_of f' (k # e) of Some c \<Rightarrow> Some c
                                   | None \<Rightarrow> group_lookup [] k e)" by blast
      have lk: "group_lookup G k e = group_lookup G' k e" for k e
        using G(3) G'(3) m by simp
      have "k \<in> fst ` set G \<longleftrightarrow> k \<in> fst ` set G'" for k
        using grouped_keys[OF G(2), of k] grouped_keys[OF G'(2), of k] lk by simp
      then have keys: "fst ` set G = fst ` set G'" by blast
      obtain m0 c0 where t: "(m0, c0) \<in> set f" using ne(1) by (cases f) auto
      then have "m0 \<in> fst ` set f" by force
      with F have "m0 \<noteq> []" by blast
      then obtain k0 e0 where m0: "m0 = k0 # e0" by (cases m0) auto
      have "k0 # e0 \<in> fst ` set f" using t m0 by force
      then have "map_of f (k0 # e0) \<noteq> None" by (simp only: map_of_eq_None_iff not_not)
      then have "group_lookup G k0 e0 \<noteq> None" using G(3) by (auto split: option.splits)
      then have "k0 \<in> fst ` set G" using grouped_keys[OF G(2)] by blast
      then have gne: "G \<noteq> []" "G' \<noteq> []" using keys by auto
      have mx: "py_max (map fst G) = py_max (map fst G')"
        using gne keys by (simp add: py_max_Max)
      let ?F = "\<lambda>G k. case map_of G k of Some coeff \<Rightarrow> dmp_from_dict coeff v
                                        | None \<Rightarrow> Inr (dmp_zero (int v))"
      have "?F G k = ?F G' k" for k
      proof (cases "map_of G k")
        case None
        then have "k \<notin> fst ` set G" by (simp add: map_of_eq_None_iff)
        then have "map_of G' k = None" using keys by (simp add: map_of_eq_None_iff)
        with None show ?thesis by simp
      next
        case (Some d)
        then have "(k, d) \<in> set G" by (rule map_of_SomeD)
        then have "k \<in> fst ` set G" by force
        then have "map_of G' k \<noteq> None" using keys by (simp add: map_of_eq_None_iff)
        then obtain d' where d': "map_of G' k = Some d'" by auto
        have dd: "distinct (map fst d)" "distinct (map fst d')"
          using G(2) G'(2) map_of_SomeD[OF Some] map_of_SomeD[OF d'] by (auto simp: grouped_def)
        have "map_of d = map_of d'"
        proof
          fix e
          show "map_of d e = map_of d' e" using lk[of k e] Some d' by (simp add: group_lookup_def)
        qed
        then have "set d = set d'" using dd by (simp add: map_of_inject_set)
        from Suc.IH[OF dd this] Some d' show ?thesis by simp
      qed
      then have "?F G = ?F G'" by blast
      with G(1) G'(1) ne mx show ?thesis by (simp del: dmp_zero_Suc)
    qed
  qed
qed

lemma to_dict_Suc_loop:
  assumes Pv: "\<forall>c. normal v c \<longrightarrow>
      (\<exists>D. dmp_to_dict c v False = Inr D \<and> distinct (map fst D)
         \<and> (D = [] \<longleftrightarrow> c = dmp_zero (int v)) \<and> dmp_from_dict D v = Inr c)"
    and n: "\<forall>c\<in>set cs. normal v c"
  shows "dmp_to_dict (Dense cs) (Suc v) False = to_dict_loop cs v (length cs)"
proof (cases "length cs = 1")
  case False
  then have z: "dmp_zero_p (Dense cs) (Suc v) = Inr False" by simp
  then have d: "dmp_degree (Dense cs) (Suc v) = Inr (int (length cs) - 1)"
    by (simp add: dmp_degree_def del: dmp_zero_p.simps)
  have "nat (int (length cs) - 1 + 1) = length cs" by simp
  then show ?thesis
    by (simp only: dmp_to_dict.simps(2) z d sum.case dmp.case simp_thms if_False to_dict_loop_def)
next
  case True
  then obtain c where cs: "cs = [c]" by (cases cs) auto
  with n have nc: "normal v c" by simp
  from Pv[rule_format, OF nc] obtain D where D: "dmp_to_dict c v False = Inr D" "D = [] \<longleftrightarrow> c = dmp_zero (int v)"
    by blast
  have zc: "dmp_zero_p c v = Inr (c = dmp_zero (int v))" using normal_zero_p[OF nc] .
  have z: "dmp_zero_p (Dense cs) (Suc v) = Inr (c = dmp_zero (int v))" using zc cs by simp
  show ?thesis
  proof (cases "c = dmp_zero (int v)")
    case True
    then have z': "dmp_zero_p (Dense cs) (Suc v) = Inr True" using z by simp
    then have d: "dmp_degree (Dense cs) (Suc v) = Inr (- 1)"
      by (simp add: dmp_degree_def del: dmp_zero_p.simps)
    have l: "dmp_to_dict (Dense cs) (Suc v) False = Inr []"
      by (simp only: dmp_to_dict.simps(2) z' d sum.case dmp.case simp_thms if_False) simp
    have "D = []" using D(2) True by simp
    then have "to_dict_loop cs v (length cs) = Inr []"
      using D(1) cs by (simp add: to_dict_loop_Suc add_terms_def)
    with l show ?thesis by simp
  next
    case False
    then have z': "dmp_zero_p (Dense cs) (Suc v) = Inr False" using z by simp
    then have d: "dmp_degree (Dense cs) (Suc v) = Inr (int (length cs) - 1)"
      by (simp add: dmp_degree_def del: dmp_zero_p.simps)
    have "nat (int (length cs) - 1 + 1) = length cs" by simp
    then show ?thesis
      by (simp only: dmp_to_dict.simps(2) z' d sum.case dmp.case simp_thms if_False to_dict_loop_def)
  qed
qed

lemma normal_0_dup: "normal 0 c \<Longrightarrow> \<exists>cs. c = of_dup cs \<and> normal_dup cs"
proof -
  assume n: "normal 0 c"
  then obtain gs where c: "c = Dense gs" using normal_Dense by blast
  with n have "shaped 0 c" by simp
  then obtain cs where cs: "c = of_dup cs" using shaped_0_of_dup by blast
  with c have gs: "gs = map Ground cs" by (simp add: of_dup_def)
  from n c gs have "cs = [] \<or> hd cs \<noteq> 0" by (cases cs) auto
  with cs show ?thesis by (auto simp: normal_dup_def)
qed

lemma dup_level_roundtrip:
  "dmp_to_dict (of_dup cs) 0 False = Inr (dup_to_dict cs False)
   \<and> dmp_from_dict (dup_to_dict cs False) 0 = Inr (of_dup (dup_strip cs))
   \<and> dmp_strip (of_dup cs) 0 = Inr (of_dup (dup_strip cs))"
  by (simp add: dup_roundtrip dmp_strip_def)

lemma of_dup_eq_zero: "of_dup cs = dmp_zero 0 \<longleftrightarrow> cs = []"
  by (simp add: of_dup_def)

lemma normal_roundtrip:
  "normal v c \<Longrightarrow>
     \<exists>D. dmp_to_dict c v False = Inr D \<and> distinct (map fst D)
        \<and> (D = [] \<longleftrightarrow> c = dmp_zero (int v)) \<and> dmp_from_dict D v = Inr c"
proof (induction v arbitrary: c)
  case 0
  then obtain cs where c: "c = of_dup cs" "normal_dup cs" using normal_0_dup by blast
  then have s: "dup_strip cs = cs" by (simp add: dup_strip_normal)
  show ?case
  proof (intro exI conjI)
    show "dmp_to_dict c 0 False = Inr (dup_to_dict cs False)" using c dup_level_roundtrip by simp
    show "distinct (map fst (dup_to_dict cs False))" by (rule dup_to_dict_distinct)
    show "(dup_to_dict cs False = []) = (c = dmp_zero (int 0))"
      using dup_to_dict_empty[of cs] s c of_dup_eq_zero by simp
    show "dmp_from_dict (dup_to_dict cs False) 0 = Inr c"
      using dup_level_roundtrip[of cs] s c by simp
  qed
next
  case (Suc v)
  then obtain cs where c: "c = Dense cs" using normal_Dense by blast
  with Suc.prems have ncs: "\<forall>x\<in>set cs. normal v x" by simp
  have Pv: "\<forall>c. normal v c \<longrightarrow>
      (\<exists>D. dmp_to_dict c v False = Inr D \<and> distinct (map fst D)
         \<and> (D = [] \<longleftrightarrow> c = dmp_zero (int v)) \<and> dmp_from_dict D v = Inr c)"
    using Suc.IH by blast
  from loop_roundtrip[of v cs, OF Pv ncs] obtain r g where
    r: "to_dict_loop cs v (length cs) = Inr r" and dr: "distinct (map fst r)"
    and g: "dmp_from_dict r (Suc v) = Inr g" "dmp_strip (Dense cs) (Suc v) = Inr g"
      "r = [] \<longleftrightarrow> g = dmp_zero (int (Suc v))"
    by (elim exE conjE) (rule that, assumption+)
  have t: "dmp_to_dict c (Suc v) False = Inr r"
    using to_dict_Suc_loop[of v cs, OF Pv ncs] r c by simp
  have "g = c" using normal_strip_id[OF Suc.prems] g(2) c by simp
  with t dr g show ?case by blast
qed

lemma normal_strippable: "normal u f \<Longrightarrow> strippable u f"
proof (cases u)
  case 0
  assume "normal u f"
  with 0 show ?thesis by (cases f) auto
next
  case (Suc v)
  assume "normal u f"
  with Suc show ?thesis by (cases f) auto
qed

lemma strippable_roundtrip:
  assumes "strippable u f"
  shows "\<exists>D g. dmp_to_dict f u False = Inr D \<and> distinct (map fst D)
           \<and> dmp_from_dict D u = Inr g \<and> dmp_strip f u = Inr g"
proof (cases u)
  case 0
  with assms have "shaped 0 f" by (cases f) auto
  then obtain cs where "f = of_dup cs" using shaped_0_of_dup by blast
  then show ?thesis using dup_level_roundtrip[of cs] dup_to_dict_distinct[of cs] 0 by blast
next
  case (Suc v)
  with assms obtain cs where f: "f = Dense cs" and ncs: "\<forall>x\<in>set cs. normal v x"
    by (cases f) auto
  have Pv: "\<forall>c. normal v c \<longrightarrow>
      (\<exists>D. dmp_to_dict c v False = Inr D \<and> distinct (map fst D)
         \<and> (D = [] \<longleftrightarrow> c = dmp_zero (int v)) \<and> dmp_from_dict D v = Inr c)"
    using normal_roundtrip by blast
  from loop_roundtrip[of v cs, OF Pv ncs] obtain r g where
    r: "to_dict_loop cs v (length cs) = Inr r" and dr: "distinct (map fst r)"
    and g: "dmp_from_dict r (Suc v) = Inr g" "dmp_strip (Dense cs) (Suc v) = Inr g"
    by (elim exE conjE) (rule that, assumption+)
  have "dmp_to_dict f (Suc v) False = Inr r"
    using to_dict_Suc_loop[of v cs, OF Pv ncs] r f by simp
  with g dr f Suc show ?thesis by blast
qed

text \<open>The round trip of a value of uniform depth, through its recursively stripped form.\<close>

lemma zero_p_shaped: "shaped v c \<Longrightarrow> dmp_zero_p c v = Inr True \<Longrightarrow> c = dmp_zero (int v)"
proof (induction v arbitrary: c)
  case 0
  then obtain cs where "c = Dense cs" using shaped_Dense by blast
  with 0 show ?case by simp
next
  case (Suc v)
  then obtain cs where c: "c = Dense cs" using shaped_Dense by blast
  with Suc.prems(2) have l: "length cs = 1" by (simp split: if_splits)
  then obtain x where x: "cs = [x]" by (cases cs) auto
  with c Suc.prems have "shaped v x" "dmp_zero_p x v = Inr True" by simp_all
  then have "x = dmp_zero (int v)" by (rule Suc.IH)
  with c x show ?case by simp
qed

lemma normal_dmp_zero: "normal u (dmp_zero (int u))"
  by (induction u) simp_all

lemma to_dict_zero: "dmp_to_dict (dmp_zero (int v)) v False = Inr []"
  using normal_roundtrip[OF normal_dmp_zero[of v]] by auto

lemma to_dict_loop_cong:
  assumes "length cs = length cs'"
    and "\<forall>i<length cs. dmp_to_dict (cs ! i) v False = dmp_to_dict (cs' ! i) v False"
  shows "m \<le> length cs \<Longrightarrow> to_dict_loop cs v m = to_dict_loop cs' v m"
proof (induction m)
  case 0
  show ?case by simp
next
  case (Suc m)
  then have "length cs - 1 - m < length cs" by simp
  with assms have e: "dmp_to_dict (cs ! (length cs - 1 - m)) v False
                   = dmp_to_dict (cs' ! (length cs' - 1 - m)) v False" by simp
  from Suc have l: "to_dict_loop cs v m = to_dict_loop cs' v m" by simp
  show ?case by (simp only: to_dict_loop_Suc e l)
qed

lemma normal_Pv:
  "\<forall>c. normal v c \<longrightarrow>
      (\<exists>D. dmp_to_dict c v False = Inr D \<and> distinct (map fst D)
         \<and> (D = [] \<longleftrightarrow> c = dmp_zero (int v)) \<and> dmp_from_dict D v = Inr c)"
  using normal_roundtrip by blast

lemma to_dict_Suc_loop_shaped:
  assumes s: "\<forall>c\<in>set cs. shaped v c"
  shows "dmp_to_dict (Dense cs) (Suc v) False = to_dict_loop cs v (length cs)"
proof (cases "dmp_zero_p (Dense cs) (Suc v) = Inr True")
  case True
  then have l: "length cs = 1" by (simp split: if_splits)
  then obtain x where x: "cs = [x]" by (cases cs) auto
  with True s have "x = dmp_zero (int v)" using zero_p_shaped[of v x] by simp
  with x have "\<forall>c\<in>set cs. normal v c" using normal_dmp_zero by simp
  then show ?thesis using to_dict_Suc_loop[OF normal_Pv] by blast
next
  case False
  have "shaped (Suc v) (Dense cs)" using s by simp
  then obtain b where "dmp_zero_p (Dense cs) (Suc v) = Inr b" using shaped_zero_p by blast
  with False have z: "dmp_zero_p (Dense cs) (Suc v) = Inr False" by (cases b) simp_all
  then have d: "dmp_degree (Dense cs) (Suc v) = Inr (int (length cs) - 1)"
    by (simp add: dmp_degree_def del: dmp_zero_p.simps)
  have "nat (int (length cs) - 1 + 1) = length cs" by simp
  then show ?thesis
    by (simp only: dmp_to_dict.simps(2) z d sum.case dmp.case simp_thms if_False to_dict_loop_def)
qed

lemma add_terms_Nil [simp]: "add_terms k [] result = result"
  by (simp add: add_terms_def)

lemma to_dict_loop_zero_cons:
  assumes "dmp_to_dict z v False = Inr []"
  shows "to_dict_loop (z # cs) v (Suc (length cs)) = to_dict_loop cs v (length cs)"
proof -
  have "to_dict_loop (z # cs) v (length cs) = to_dict_loop cs v (length cs)"
    by (rule to_dict_loop_cons) simp
  then show ?thesis using assms by (simp add: to_dict_loop_Suc split: sum.splits)
qed

lemma to_dict_loop_drop:
  "count_zeros cs v = Inr i \<Longrightarrow> \<forall>c\<in>set cs. shaped v c \<Longrightarrow>
     to_dict_loop (drop i cs) v (length cs - i) = to_dict_loop cs v (length cs)"
proof (induction cs arbitrary: i)
  case Nil
  then show ?case by simp
next
  case (Cons c cs)
  from Cons.prems(2) obtain b where b: "dmp_zero_p c v = Inr b" using shaped_zero_p[of v c] by auto
  show ?case
  proof (cases b)
    case False
    with b Cons.prems(1) have "i = 0" by simp
    then show ?thesis by simp
  next
    case True
    with b Cons.prems(1) obtain i' where i': "count_zeros cs v = Inr i'" "i = Suc i'"
      by (auto split: sum.splits)
    have "c = dmp_zero (int v)" using zero_p_shaped[of v c] b True Cons.prems(2) by simp
    then have "dmp_to_dict c v False = Inr []" using to_dict_zero by simp
    then have "to_dict_loop (c # cs) v (Suc (length cs)) = to_dict_loop cs v (length cs)"
      by (rule to_dict_loop_zero_cons)
    moreover have "to_dict_loop (drop i' cs) v (length cs - i') = to_dict_loop cs v (length cs)"
      using Cons.IH[OF i'(1)] Cons.prems(2) by simp
    ultimately show ?thesis using i'(2) by simp
  qed
qed

lemma normal_shaped: "normal u f \<Longrightarrow> shaped u f"
proof (induction u arbitrary: f)
  case 0
  then show ?case by (cases f) auto
next
  case (Suc v)
  then show ?case by (cases f) auto
qed

lemma strip_normal:
  assumes n: "\<forall>c\<in>set cs. normal v c" and a: "dmp_strip (Dense cs) (Suc v) = Inr g"
  shows "normal (Suc v) g"
proof (cases "dmp_zero_p (Dense cs) (Suc v) = Inr True")
  case True
  then have g: "g = Dense cs" using a by (simp add: dmp_strip_def del: dmp_zero_p.simps)
  from True have l: "length cs = 1" by (simp split: if_splits)
  with n g show ?thesis by (cases cs) auto
next
  case False
  have "shaped (Suc v) (Dense cs)" using n normal_shaped by simp
  then obtain b where "dmp_zero_p (Dense cs) (Suc v) = Inr b" using shaped_zero_p by blast
  with False have z: "dmp_zero_p (Dense cs) (Suc v) = Inr False" by (cases b) simp_all
  with a obtain i where i: "count_zeros cs v = Inr i"
    and g: "g = (if i = length cs then dmp_zero (int (Suc v)) else Dense (drop i cs))"
    by (auto simp: dmp_strip_def simp del: dmp_zero_p.simps split: sum.splits if_splits)
  show ?thesis
  proof (cases "i = length cs")
    case True
    with g show ?thesis using normal_dmp_zero[of "Suc v"] by simp
  next
    case F: False
    with i have lt: "i < length cs" using count_zeros_le by fastforce
    then have nz: "dmp_zero_p (cs ! i) v = Inr False" using count_zeros_stop[OF i] by simp
    from lt obtain d ds where d: "drop i cs = d # ds" "d = cs ! i"
      by (metis Cons_nth_drop_Suc)
    have "set (drop i cs) \<subseteq> set cs" by (rule set_drop_subset)
    with n have nn: "\<forall>c\<in>set (d # ds). normal v c" using d(1) by auto
    then have "normal v d" by simp
    then have "d \<noteq> dmp_zero (int v)" using normal_zero_p[of v d] nz d(2) by auto
    with nn g F d(1) show ?thesis by simp
  qed
qed

lemma to_dict_strip:
  assumes n: "\<forall>c\<in>set cs. normal v c" and a: "dmp_strip (Dense cs) (Suc v) = Inr g"
  shows "dmp_to_dict g (Suc v) False = dmp_to_dict (Dense cs) (Suc v) False"
proof (cases "dmp_zero_p (Dense cs) (Suc v) = Inr True")
  case True
  then have g: "g = Dense cs" using a by (simp add: dmp_strip_def del: dmp_zero_p.simps)
  then show ?thesis by simp
next
  case False
  have sh: "\<forall>c\<in>set cs. shaped v c" using n normal_shaped by blast
  then have "shaped (Suc v) (Dense cs)" by simp
  then obtain b where "dmp_zero_p (Dense cs) (Suc v) = Inr b" using shaped_zero_p by blast
  with False have z: "dmp_zero_p (Dense cs) (Suc v) = Inr False" by (cases b) simp_all
  with a obtain i where i: "count_zeros cs v = Inr i"
    and g: "g = (if i = length cs then dmp_zero (int (Suc v)) else Dense (drop i cs))"
    by (auto simp: dmp_strip_def simp del: dmp_zero_p.simps split: sum.splits if_splits)
  have R: "dmp_to_dict (Dense cs) (Suc v) False = to_dict_loop (drop i cs) v (length cs - i)"
    using to_dict_Suc_loop_shaped[OF sh] to_dict_loop_drop[OF i sh] by simp
  show ?thesis
  proof (cases "i = length cs")
    case True
    then have "g = dmp_zero (int (Suc v))" using g by simp
    then have "dmp_to_dict g (Suc v) False = Inr []" using to_dict_zero[of "Suc v"] by simp
    with R True show ?thesis by simp
  next
    case F: False
    have "set (drop i cs) \<subseteq> set cs" by (rule set_drop_subset)
    with sh have "\<forall>c\<in>set (drop i cs). shaped v c" by blast
    from to_dict_Suc_loop_shaped[OF this] g F R show ?thesis by simp
  qed
qed

lemma dup_to_dict_strip: "dup_to_dict (dup_strip cs) False = dup_to_dict cs False"
proof (induction cs)
  case Nil
  show ?case by (simp add: dup_strip_def)
next
  case (Cons c cs)
  show ?case
  proof (cases "c = 0")
    case True
    then have "dup_strip (c # cs) = dup_strip cs" by (simp add: dup_strip_dropWhile)
    with Cons True show ?thesis by (simp add: dup_to_dict_cons)
  next
    case False
    then show ?thesis by (simp add: dup_strip_def)
  qed
qed

lemma collect_all2:
  "\<forall>c\<in>set cs. \<exists>c'. f c = Inr c' \<and> P c c' \<Longrightarrow>
     \<exists>cs'. collect (map f cs) = Inr cs' \<and> list_all2 P cs cs'"
proof (induction cs)
  case Nil
  then show ?case by simp
next
  case (Cons c cs)
  then obtain c' cs' where "f c = Inr c'" "P c c'" "collect (map f cs) = Inr cs'" "list_all2 P cs cs'"
    by auto
  then show ?case by simp
qed

lemma normal_0_of_dup: "normal 0 (of_dup (dup_strip cs))"
proof -
  have "normal_dup (dup_strip cs)" by (rule normal_dup_strip)
  then show ?thesis by (cases "dup_strip cs") (auto simp: of_dup_def normal_dup_def)
qed

lemma rec_strip_spec:
  "shaped v c \<Longrightarrow>
     \<exists>c'. rec_strip c v = Inr c' \<and> normal v c' \<and> dmp_to_dict c v False = dmp_to_dict c' v False"
proof (induction v arbitrary: c)
  case 0
  then obtain cs where c: "c = of_dup cs" using shaped_0_of_dup by blast
  show ?case
  proof (intro exI conjI)
    show "rec_strip c 0 = Inr (of_dup (dup_strip cs))" using c by simp
    show "normal 0 (of_dup (dup_strip cs))" by (rule normal_0_of_dup)
    show "dmp_to_dict c 0 False = dmp_to_dict (of_dup (dup_strip cs)) 0 False"
      using c by (simp add: dup_to_dict_strip)
  qed
next
  case (Suc v)
  then obtain cs where c: "c = Dense cs" using shaped_Dense by blast
  with Suc.prems have sh: "\<forall>x\<in>set cs. shaped v x" by simp
  let ?P = "\<lambda>x x'. normal v x' \<and> dmp_to_dict x v False = dmp_to_dict x' v False"
  have "\<forall>x\<in>set cs. \<exists>x'. rec_strip x v = Inr x' \<and> ?P x x'" using Suc.IH sh by blast
  from collect_all2[of cs "\<lambda>x. rec_strip x v" ?P, OF this]
  obtain cs' where cs': "collect (map (\<lambda>x. rec_strip x v) cs) = Inr cs'" "list_all2 ?P cs cs'"
    by blast
  from cs'(2) have len: "length cs = length cs'" by (rule list_all2_lengthD)
  from cs'(2) have n': "\<forall>x\<in>set cs'. normal v x"
    by (auto simp: list_all2_conv_all_nth in_set_conv_nth)
  from cs'(2) have eq: "\<forall>i<length cs. dmp_to_dict (cs ! i) v False = dmp_to_dict (cs' ! i) v False"
    by (auto simp: list_all2_conv_all_nth)
  have "strippable (Suc v) (Dense cs')" using n' by simp
  from strippable_roundtrip[OF this] obtain g where g: "dmp_strip (Dense cs') (Suc v) = Inr g"
    by blast
  have r: "rec_strip c (Suc v) = Inr g" using c cs'(1) g by simp
  have ng: "normal (Suc v) g" using strip_normal[OF n' g] .
  have "dmp_to_dict c (Suc v) False = to_dict_loop cs v (length cs)"
    using c to_dict_Suc_loop_shaped[OF sh] by simp
  also have "\<dots> = to_dict_loop cs' v (length cs)"
    by (rule to_dict_loop_cong[OF len eq]) simp
  also have "\<dots> = dmp_to_dict (Dense cs') (Suc v) False"
    using to_dict_Suc_loop[OF normal_Pv n'] len by simp
  also have "\<dots> = dmp_to_dict g (Suc v) False" using to_dict_strip[OF n' g] by simp
  finally have "dmp_to_dict c (Suc v) False = dmp_to_dict g (Suc v) False" .
  with r ng show ?case by blast
qed

lemma shaped_roundtrip:
  assumes "shaped u f"
  shows "\<exists>D g. dmp_to_dict f u False = Inr D \<and> distinct (map fst D)
           \<and> rec_strip f u = Inr g \<and> normal u g \<and> dmp_from_dict D u = Inr g"
proof -
  from rec_strip_spec[OF assms] obtain g where g: "rec_strip f u = Inr g" "normal u g"
    "dmp_to_dict f u False = dmp_to_dict g u False" by blast
  from normal_roundtrip[OF g(2)] obtain D where "dmp_to_dict g u False = Inr D"
    "distinct (map fst D)" "dmp_from_dict D u = Inr g" by blast
  with g show ?thesis by auto
qed

lemma count_zeros_prefix:
  "count_zeros cs v = Inr i \<Longrightarrow> j < i \<Longrightarrow> dmp_zero_p (cs ! j) v = Inr True"
proof (induction cs arbitrary: i j)
  case Nil
  then show ?case by simp
next
  case (Cons c cs)
  then show ?case by (cases j) (auto split: sum.splits bool.splits)
qed

lemma strip_normal_strippable:
  assumes s: "shaped u f" and a: "dmp_strip f u = Inr g" and n: "normal u g"
  shows "strippable u f"
proof (cases u)
  case 0
  with s show ?thesis by (cases f) auto
next
  case (Suc v)
  with s obtain cs where f: "f = Dense cs" and sh: "\<forall>c\<in>set cs. shaped v c" by (cases f) auto
  show ?thesis
  proof (cases "dmp_zero_p f u = Inr True")
    case True
    with a Suc have "g = f" by (simp add: dmp_strip_def del: dmp_zero_p.simps)
    with n show ?thesis using normal_strippable by simp
  next
    case False
    obtain b where "dmp_zero_p f u = Inr b" using shaped_zero_p[OF s] by blast
    with False have z: "dmp_zero_p (Dense cs) (Suc v) = Inr False" using f Suc by (cases b) simp_all
    with a f Suc obtain i where i: "count_zeros cs v = Inr i"
      and g: "g = (if i = length cs then dmp_zero (int (Suc v)) else Dense (drop i cs))"
      by (auto simp: dmp_strip_def simp del: dmp_zero_p.simps split: sum.splits if_splits)
    have il: "i \<le> length cs" using count_zeros_le[OF i] .
    have "\<forall>k<length cs. normal v (cs ! k)"
    proof (intro allI impI)
      fix k assume k: "k < length cs"
      show "normal v (cs ! k)"
      proof (cases "k < i")
        case True
        then have "dmp_zero_p (cs ! k) v = Inr True" using count_zeros_prefix[OF i] by simp
        moreover have "shaped v (cs ! k)" using sh k by simp
        ultimately have "cs ! k = dmp_zero (int v)" using zero_p_shaped by simp
        then show ?thesis using normal_dmp_zero by simp
      next
        case F: False
        with k have ne: "i \<noteq> length cs" by simp
        with g have "g = Dense (drop i cs)" by simp
        with n Suc have "\<forall>c\<in>set (drop i cs). normal v c" by simp
        moreover have "cs ! k = drop i cs ! (k - i)" using F k il by simp
        moreover have "k - i < length (drop i cs)" using F k by simp
        ultimately show ?thesis by (metis nth_mem)
      qed
    qed
    then have "\<forall>c\<in>set cs. normal v c" by (auto simp: in_set_conv_nth)
    with f Suc show ?thesis by simp
  qed
qed

text \<open>
  C3, as the code has it. For every polynomial \<open>f\<close> of uniform depth at level \<open>u\<close>,
  converting to the sparse map and back yields the recursively stripped form of \<open>f\<close>, the
  one \<open>dmp_validate\<close> computes: \<open>dmp_to_dict\<close> returns a map \<open>D\<close>, and \<open>dmp_from_dict\<close> of
  \<open>D\<close>, with its terms in any order, returns what \<open>_rec_strip\<close> of \<open>f\<close> returns, which is
  in normal form. That is what \<open>dmp_strip\<close> of \<open>f\<close> returns exactly when the elements of
  \<open>f\<close> are in normal form, \<open>f\<close> itself with or without leading zero elements. For \<open>f\<close>
  in normal form it is \<open>f\<close>.
\<close>

theorem dict_roundtrip:
  "(shaped u f \<longrightarrow>
      (\<exists>D g. dmp_to_dict f u False = Inr D \<and> distinct (map fst D) \<and> rec_strip f u = Inr g
         \<and> normal u g
         \<and> (\<forall>D'. distinct (map fst D') \<and> set D' = set D \<longrightarrow> dmp_from_dict D' u = Inr g)
         \<and> (dmp_strip f u = Inr g \<longleftrightarrow> strippable u f)))
   \<and> (strippable u f \<longrightarrow>
      (\<exists>D g. dmp_to_dict f u False = Inr D \<and> distinct (map fst D) \<and> dmp_strip f u = Inr g
         \<and> (\<forall>D'. distinct (map fst D') \<and> set D' = set D \<longrightarrow> dmp_from_dict D' u = Inr g)))
   \<and> (normal u f \<longrightarrow>
      (\<exists>D. dmp_to_dict f u False = Inr D \<and> distinct (map fst D) \<and> dmp_strip f u = Inr f
         \<and> (\<forall>D'. distinct (map fst D') \<and> set D' = set D \<longrightarrow> dmp_from_dict D' u = Inr f)))"
proof (intro conjI impI)
  assume sh: "shaped u f"
  from shaped_roundtrip[OF sh] obtain D g where
    D: "dmp_to_dict f u False = Inr D" "distinct (map fst D)" "rec_strip f u = Inr g"
    "normal u g" "dmp_from_dict D u = Inr g"
    by (elim exE conjE) (rule that, assumption+)
  have p: "\<forall>D'. distinct (map fst D') \<and> set D' = set D \<longrightarrow> dmp_from_dict D' u = Inr g"
    using dmp_from_dict_perm[of _ D u] D(2,5) by simp
  have i: "dmp_strip f u = Inr g \<longleftrightarrow> strippable u f"
  proof
    assume "dmp_strip f u = Inr g"
    then show "strippable u f" using strip_normal_strippable[OF sh _ D(4)] by simp
  next
    assume "strippable u f"
    from strippable_roundtrip[OF this] obtain D2 g2 where
      "dmp_to_dict f u False = Inr D2" "dmp_from_dict D2 u = Inr g2" "dmp_strip f u = Inr g2"
      by blast
    with D(1,5) show "dmp_strip f u = Inr g" by simp
  qed
  show "\<exists>D g. dmp_to_dict f u False = Inr D \<and> distinct (map fst D) \<and> rec_strip f u = Inr g
         \<and> normal u g
         \<and> (\<forall>D'. distinct (map fst D') \<and> set D' = set D \<longrightarrow> dmp_from_dict D' u = Inr g)
         \<and> (dmp_strip f u = Inr g \<longleftrightarrow> strippable u f)"
  proof (intro exI conjI)
    show "dmp_to_dict f u False = Inr D" by (rule D(1))
    show "distinct (map fst D)" by (rule D(2))
    show "rec_strip f u = Inr g" by (rule D(3))
    show "normal u g" by (rule D(4))
    show "\<forall>D'. distinct (map fst D') \<and> set D' = set D \<longrightarrow> dmp_from_dict D' u = Inr g" by (rule p)
    show "dmp_strip f u = Inr g \<longleftrightarrow> strippable u f" by (rule i)
  qed
next
  assume "strippable u f"
  from strippable_roundtrip[OF this] obtain D g where
    D: "dmp_to_dict f u False = Inr D" "distinct (map fst D)" "dmp_from_dict D u = Inr g"
    "dmp_strip f u = Inr g" by blast
  have "\<forall>D'. distinct (map fst D') \<and> set D' = set D \<longrightarrow> dmp_from_dict D' u = Inr g"
    using dmp_from_dict_perm[of _ D u] D(2,3) by simp
  with D show "\<exists>D g. dmp_to_dict f u False = Inr D \<and> distinct (map fst D) \<and> dmp_strip f u = Inr g
         \<and> (\<forall>D'. distinct (map fst D') \<and> set D' = set D \<longrightarrow> dmp_from_dict D' u = Inr g)"
    by blast
next
  assume n: "normal u f"
  from normal_roundtrip[OF n] obtain D where
    D: "dmp_to_dict f u False = Inr D" "distinct (map fst D)" "dmp_from_dict D u = Inr f" by blast
  from strippable_roundtrip[OF normal_strippable[OF n]] D
  have s: "dmp_strip f u = Inr f" by auto
  have "\<forall>D'. distinct (map fst D') \<and> set D' = set D \<longrightarrow> dmp_from_dict D' u = Inr f"
    using dmp_from_dict_perm[of _ D u] D(2,3) by simp
  with D s show "\<exists>D. dmp_to_dict f u False = Inr D \<and> distinct (map fst D) \<and> dmp_strip f u = Inr f
         \<and> (\<forall>D'. distinct (map fst D') \<and> set D' = set D \<longrightarrow> dmp_from_dict D' u = Inr f)"
    by blast
qed

theorem dict_roundtrip_witness:
  "strippable 1 (Dense [Dense [], Dense [Ground 1, Ground 0], Dense [], Dense [Ground 2, Ground 3]])
   \<and> dmp_from_dict [([2, 1], 1), ([0, 0], 3), ([0, 1], 2)] 1
       = Inr (Dense [Dense [Ground 1, Ground 0], Dense [], Dense [Ground 2, Ground 3]])
   \<and> normal 1 (Dense [Dense [Ground 1, Ground 0], Dense [], Dense [Ground 2, Ground 3]])
   \<and> (\<exists>D. dmp_to_dict (Dense [Dense [Ground 1, Ground 0], Dense [], Dense [Ground 2, Ground 3]]) 1 False = Inr D
         \<and> dmp_from_dict D 1 = Inr (Dense [Dense [Ground 1, Ground 0], Dense [], Dense [Ground 2, Ground 3]]))
   \<and> shaped 1 (Dense [Dense [], Dense [Ground 0, Ground 1, Ground 2], Dense [Ground 1]])
   \<and> \<not> strippable 1 (Dense [Dense [], Dense [Ground 0, Ground 1, Ground 2], Dense [Ground 1]])
   \<and> rec_strip (Dense [Dense [], Dense [Ground 0, Ground 1, Ground 2], Dense [Ground 1]]) 1
       = Inr (Dense [Dense [Ground 1, Ground 2], Dense [Ground 1]])
   \<and> dmp_from_dict [([1, 1], 1), ([0, 0], 1), ([1, 0], 2)] 1
       = Inr (Dense [Dense [Ground 1, Ground 2], Dense [Ground 1]])
   \<and> dmp_strip (Dense [Dense [], Dense [Ground 0, Ground 1, Ground 2], Dense [Ground 1]]) 1
       \<noteq> Inr (Dense [Dense [Ground 1, Ground 2], Dense [Ground 1]])"
proof -
  let ?f = "Dense [Dense [], Dense [Ground 1, Ground 0], Dense [], Dense [Ground 2, Ground 3]]"
  let ?g = "Dense [Dense [Ground 1, Ground 0], Dense [], Dense [Ground 2, Ground 3]]"
  let ?D' = "[([2, 1], 1), ([0, 0], 3), ([0, 1], 2)] :: sdict"
  have s: "strippable 1 ?f" by (simp add: numeral_eq_Suc)
  have n: "normal 1 ?g" by (simp add: numeral_eq_Suc)
  have e: "dmp_strip ?f 1 = Inr ?g" by (simp add: dmp_strip_def)
  have t: "dmp_to_dict ?f 1 False = Inr [([0, 0], 3), ([0, 1], 2), ([2, 1], 1)]" by code_simp
  from dict_roundtrip[of 1 ?f] s obtain D g where
    D: "dmp_to_dict ?f 1 False = Inr D" "dmp_strip ?f 1 = Inr g"
    "\<forall>D'. distinct (map fst D') \<and> set D' = set D \<longrightarrow> dmp_from_dict D' 1 = Inr g" by blast
  from D(1) t have "D = [([0, 0], 3), ([0, 1], 2), ([2, 1], 1)]" by simp
  then have "distinct (map fst ?D') \<and> set ?D' = set D" by auto
  with D(3) have "dmp_from_dict ?D' 1 = Inr g" by blast
  with D(2) e have a: "dmp_from_dict ?D' 1 = Inr ?g" by simp
  from dict_roundtrip[of 1 ?g] n obtain D2 where
    "dmp_to_dict ?g 1 False = Inr D2" "distinct (map fst D2)" "dmp_strip ?g 1 = Inr ?g"
    "\<forall>D'. distinct (map fst D') \<and> set D' = set D2 \<longrightarrow> dmp_from_dict D' 1 = Inr ?g" by blast
  then have b: "\<exists>D. dmp_to_dict ?g 1 False = Inr D \<and> dmp_from_dict D 1 = Inr ?g" by blast
  let ?f3 = "Dense [Dense [], Dense [Ground 0, Ground 1, Ground 2], Dense [Ground 1]]"
  let ?g3 = "Dense [Dense [Ground 1, Ground 2], Dense [Ground 1]]"
  let ?D3 = "[([1, 1], 1), ([0, 0], 1), ([1, 0], 2)] :: sdict"
  have s3: "shaped 1 ?f3" by (simp add: numeral_eq_Suc)
  have ns3: "\<not> strippable 1 ?f3" by (simp add: numeral_eq_Suc)
  have r3: "rec_strip ?f3 1 = Inr ?g3" by code_simp
  have t3: "dmp_to_dict ?f3 1 False = Inr [([0, 0], 1), ([1, 0], 2), ([1, 1], 1)]" by code_simp
  from dict_roundtrip[of 1 ?f3] s3 obtain D3 g3 where
    D3: "dmp_to_dict ?f3 1 False = Inr D3" "rec_strip ?f3 1 = Inr g3"
    "\<forall>D'. distinct (map fst D') \<and> set D' = set D3 \<longrightarrow> dmp_from_dict D' 1 = Inr g3"
    "dmp_strip ?f3 1 = Inr g3 \<longleftrightarrow> strippable 1 ?f3" by blast
  from D3(1) t3 have "D3 = [([0, 0], 1), ([1, 0], 2), ([1, 1], 1)]" by simp
  then have "distinct (map fst ?D3) \<and> set ?D3 = set D3" by auto
  with D3(3) have "dmp_from_dict ?D3 1 = Inr g3" by blast
  moreover from D3(2) r3 have g3: "g3 = ?g3" by simp
  ultimately have a3: "dmp_from_dict ?D3 1 = Inr ?g3" by simp
  from D3(4) ns3 g3 have d3: "dmp_strip ?f3 1 \<noteq> Inr ?g3" by simp
  from s a n b s3 ns3 r3 a3 d3 show ?thesis by (intro conjI)
qed

text \<open>
  The claim as stated, for every polynomial of uniform depth, fails where an element is
  not in normal form, since \<open>dmp_strip\<close> strips the outer sequence only: for
  \<open>[[], [0, 1, 2], [1]]\<close> at level 1 the round trip gives \<open>[[1, 2], [1]]\<close> and \<open>dmp_strip\<close>
  gives \<open>[[0, 1, 2], [1]]\<close>.
\<close>

theorem dict_roundtrip_counterexample:
  "shaped 1 (Dense [Dense [], Dense [Ground 0, Ground 1, Ground 2], Dense [Ground 1]])
   \<and> dmp_to_dict (Dense [Dense [], Dense [Ground 0, Ground 1, Ground 2], Dense [Ground 1]]) 1 False
       = Inr [([0, 0], 1), ([1, 0], 2), ([1, 1], 1)]
   \<and> dmp_from_dict [([0, 0], 1), ([1, 0], 2), ([1, 1], 1)] 1
       = Inr (Dense [Dense [Ground 1, Ground 2], Dense [Ground 1]])
   \<and> dmp_strip (Dense [Dense [], Dense [Ground 0, Ground 1, Ground 2], Dense [Ground 1]]) 1
       = Inr (Dense [Dense [Ground 0, Ground 1, Ground 2], Dense [Ground 1]])
   \<and> dmp_from_dict [([0, 0], 1), ([1, 0], 2), ([1, 1], 1)] 1
       \<noteq> dmp_strip (Dense [Dense [], Dense [Ground 0, Ground 1, Ground 2], Dense [Ground 1]]) 1"
  by code_simp

end
